theory Spec2Isabelle
  imports Main "HOL-Library.Monad_Syntax"
begin

section \<open>Python lists, grids and the random source\<close>

text \<open>
  The three games keep their boards as lists of rows, indexed \<open>grid[y][x]\<close>. A read or a
  write outside a list raises \<open>IndexError\<close> in Python, and a negative index counts from
  the end. Every function that can raise returns an \<open>option\<close>: \<open>None\<close> stands for an
  uncaught exception.
\<close>

type_synonym grid = "int list list"
type_synonym pos = "int \<times> int"

definition py_index :: "nat \<Rightarrow> int \<Rightarrow> nat option" where
  "py_index n i =
     (if 0 \<le> i \<and> i < int n then Some (nat i)
      else if - int n \<le> i \<and> i < 0 then Some (nat (int n + i))
      else None)"

definition py_nth :: "'a list \<Rightarrow> int \<Rightarrow> 'a option" where
  "py_nth xs i = map_option (\<lambda>k. xs ! k) (py_index (length xs) i)"

definition py_set :: "'a list \<Rightarrow> int \<Rightarrow> 'a \<Rightarrow> 'a list option" where
  "py_set xs i v = map_option (\<lambda>k. xs[k := v]) (py_index (length xs) i)"

definition grid_get :: "grid \<Rightarrow> int \<Rightarrow> int \<Rightarrow> int option" where
  "grid_get g y x = do { row \<leftarrow> py_nth g y; py_nth row x }"

definition grid_set :: "grid \<Rightarrow> int \<Rightarrow> int \<Rightarrow> int \<Rightarrow> grid option" where
  "grid_set g y x v = do { row \<leftarrow> py_nth g y; row' \<leftarrow> py_set row x v; py_set g y row' }"

text \<open>\<open>xs[:n]\<close>: a negative \<open>n\<close> drops from the end.\<close>

definition py_prefix :: "int \<Rightarrow> 'a list \<Rightarrow> 'a list" where
  "py_prefix n xs = (if 0 \<le> n then take (nat n) xs else take (length xs - nat (- n)) xs)"

text \<open>\<open>xs.index(v)\<close>: the first position of \<open>v\<close>; \<open>None\<close> is the \<open>ValueError\<close>.\<close>

fun index_of :: "'a list \<Rightarrow> 'a \<Rightarrow> nat option" where
  "index_of [] v = None"
| "index_of (x # xs) v = (if x = v then Some 0 else map_option Suc (index_of xs v))"

text \<open>A \<open>for\<close> loop whose body may raise: the first exception ends the loop.\<close>

fun foldM :: "('s \<Rightarrow> 'a \<Rightarrow> 's option) \<Rightarrow> 'a list \<Rightarrow> 's \<Rightarrow> 's option" where
  "foldM f [] s = Some s"
| "foldM f (x # xs) s = (case f s x of None \<Rightarrow> None | Some s' \<Rightarrow> foldM f xs s')"

text \<open>A grid of \<open>h\<close> rows of \<open>w\<close> cells each.\<close>

definition rect_grid :: "grid \<Rightarrow> int \<Rightarrow> int \<Rightarrow> bool" where
  "rect_grid g w h = (length g = nat h \<and> list_all (\<lambda>row. length row = nat w) g)"

section \<open>ga85: the colour-cycle puzzle\<close>

definition COLOR_CYCLE :: "int list" where
  "COLOR_CYCLE = [8, 2, 3, 4, 7, 6]"

definition click_targets :: "int \<Rightarrow> int \<Rightarrow> pos list" where
  "click_targets cx cy = [(cx, cy), (cx - 1, cy), (cx + 1, cy), (cx, cy - 1), (cx, cy + 1)]"

text \<open>The body of the loop of \<open>_apply_click\<close> for one target \<open>(tx, ty)\<close>.\<close>

definition click_cell :: "int \<Rightarrow> int \<Rightarrow> int list \<Rightarrow> grid \<Rightarrow> pos \<Rightarrow> grid option" where
  "click_cell pw ph colors_pool g t =
     (case t of (tx, ty) \<Rightarrow>
        if 0 \<le> tx \<and> tx < pw \<and> 0 \<le> ty \<and> ty < ph then
          do {
            cur \<leftarrow> grid_get g ty tx;
            let ci = (case index_of colors_pool cur of Some i \<Rightarrow> i | None \<Rightarrow> 0);
            if colors_pool = [] then None
            else do {
              v \<leftarrow> py_nth colors_pool (int ((ci + 1) mod length colors_pool));
              grid_set g ty tx v }
          }
        else Some g)"

definition apply_click :: "grid \<Rightarrow> int \<Rightarrow> int \<Rightarrow> int \<Rightarrow> int \<Rightarrow> int list \<Rightarrow> grid option" where
  "apply_click g cr cc pw ph colors_pool =
     foldM (click_cell pw ph colors_pool) (click_targets cc cr) g"

record level_def =
  ldef_pw :: int
  ldef_ph :: int
  ldef_num_colors :: int

record ga85 =
  ga_grid :: grid
  ga_history :: "grid list"
  ga_ldef :: level_def
  ga_cursor_gx :: int
  ga_cursor_gy :: int
  ga_target_color :: int

definition cycle_color :: "level_def \<Rightarrow> int \<Rightarrow> int option" where
  "cycle_color ld color =
     (let pool = py_prefix (ldef_num_colors ld) COLOR_CYCLE
      in case index_of pool color of
           Some idx \<Rightarrow> py_nth pool (int ((idx + 1) mod length pool))
         | None \<Rightarrow> py_nth pool 0)"

text \<open>The body of the loop of \<open>_activate_cell\<close> for one target.\<close>

definition activate_target :: "level_def \<Rightarrow> grid \<Rightarrow> pos \<Rightarrow> grid option" where
  "activate_target ld g t =
     (case t of (tx, ty) \<Rightarrow>
        if 0 \<le> tx \<and> tx < ldef_pw ld \<and> 0 \<le> ty \<and> ty < ldef_ph ld then
          do {
            cur \<leftarrow> grid_get g ty tx;
            v \<leftarrow> cycle_color ld cur;
            grid_set g ty tx v }
        else Some g)"

definition activate_cell :: "ga85 \<Rightarrow> int \<Rightarrow> int \<Rightarrow> ga85 option" where
  "activate_cell s gx gy =
     (let ld = ga_ldef s in
      if gx < 0 \<or> gx \<ge> ldef_pw ld \<or> gy < 0 \<or> gy \<ge> ldef_ph ld then Some s
      else
        case foldM (activate_target ld) (click_targets gx gy) (ga_grid s) of
          None \<Rightarrow> None
        | Some g' \<Rightarrow> Some (s\<lparr>ga_history := ga_history s @ [ga_grid s], ga_grid := g'\<rparr>))"

definition palette_grid :: "int list \<Rightarrow> grid \<Rightarrow> bool" where
  "palette_grid pool g = (\<forall>row \<in> set g. \<forall>c \<in> set row. c \<in> set pool)"

section \<open>pm07: seven arrow-key puzzles\<close>

definition C_BLACK :: int where "C_BLACK = 0"
definition C_DARK_GRAY :: int where "C_DARK_GRAY = 1"
definition C_RED :: int where "C_RED = 2"
definition C_GREEN :: int where "C_GREEN = 3"
definition C_BLUE :: int where "C_BLUE = 4"
definition C_YELLOW :: int where "C_YELLOW = 5"
definition C_ORANGE :: int where "C_ORANGE = 7"
definition C_CYAN :: int where "C_CYAN = 8"
definition C_BROWN :: int where "C_BROWN = 9"
definition C_TEAL :: int where "C_TEAL = 13"
definition C_LIGHT_GRAY :: int where "C_LIGHT_GRAY = 15"

datatype game_action = RESET | ACTION1 | ACTION2 | ACTION3 | ACTION4 | ACTION5 | ACTION6 | ACTION7

text \<open>
  The dictionary \<open>_extra\<close>: one field per key that the setup functions store, \<open>None\<close>
  while the key is absent. Reading an absent key with \<open>[]\<close> raises \<open>KeyError\<close>.
\<close>

record extra =
  x_c1 :: "int option"
  x_c2 :: "int option"
  x_gems_total :: "int option"
  x_gems_left :: "int option"
  x_wall_positions :: "pos set option"
  x_exit_x :: "int option"
  x_exit_y :: "int option"
  x_teleport_map :: "(pos \<times> pos) list option"
  x_mirror_x :: "int option"
  x_mirror_y :: "int option"
  x_target_x :: "int option"
  x_target_y :: "int option"
  x_block_colors :: "int set option"
  x_target_colors :: "int set option"
  x_target_positions :: "(pos \<times> int) list option"
  x_original_targets :: "(pos \<times> int) list option"

definition empty_extra :: extra where
  "empty_extra = \<lparr>x_c1 = None, x_c2 = None, x_gems_total = None, x_gems_left = None,
     x_wall_positions = None, x_exit_x = None, x_exit_y = None, x_teleport_map = None,
     x_mirror_x = None, x_mirror_y = None, x_target_x = None, x_target_y = None,
     x_block_colors = None, x_target_colors = None, x_target_positions = None,
     x_original_targets = None\<rparr>"

text \<open>One entry of \<open>_history\<close>, in the order \<open>_save_state\<close> packs it:
  grid, cursor x, cursor y, phase, last dx, last dy, previous colour, extra.\<close>

type_synonym snapshot = "grid \<times> int \<times> int \<times> int \<times> int \<times> int \<times> int \<times> extra"

text \<open>The fields of the game object, with the index and the size of the current level.\<close>

record pm07 =
  pm_grid :: grid
  pm_cursor_x :: int
  pm_cursor_y :: int
  pm_history :: "snapshot list"
  pm_phase :: int
  pm_prev_color :: int
  pm_last_dx :: int
  pm_last_dy :: int
  pm_extra :: extra
  pm_level_index :: nat
  pm_grid_size :: "int \<times> int"

definition save_state :: "pm07 \<Rightarrow> pm07" where
  "save_state s = s\<lparr>pm_history := pm_history s @
     [(pm_grid s, pm_cursor_x s, pm_cursor_y s, pm_phase s, pm_last_dx s, pm_last_dy s,
       pm_prev_color s, pm_extra s)]\<rparr>"

definition undo :: "pm07 \<Rightarrow> pm07" where
  "undo s =
     (if pm_history s \<noteq> [] then
        (case last (pm_history s) of (g, cx, cy, ph, ldx, ldy, pc, ex) \<Rightarrow>
           s\<lparr>pm_grid := g, pm_cursor_x := cx, pm_cursor_y := cy, pm_phase := ph,
             pm_last_dx := ldx, pm_last_dy := ldy, pm_prev_color := pc, pm_extra := ex,
             pm_history := butlast (pm_history s)\<rparr>)
      else s)"

fun get_dir :: "game_action \<Rightarrow> int \<times> int" where
  "get_dir ACTION1 = (0, - 1)"
| "get_dir ACTION2 = (0, 1)"
| "get_dir ACTION3 = (- 1, 0)"
| "get_dir ACTION4 = (1, 0)"
| "get_dir _ = (0, 0)"

definition in_bounds :: "int \<Rightarrow> int \<Rightarrow> int \<Rightarrow> int \<Rightarrow> bool" where
  "in_bounds x y w h = (0 \<le> x \<and> x < w \<and> 0 \<le> y \<and> y < h)"

text \<open>\<open>self._extra.get("gems_left", d)\<close>.\<close>

definition gems_left_or :: "int \<Rightarrow> extra \<Rightarrow> int" where
  "gems_left_or d e = (case x_gems_left e of None \<Rightarrow> d | Some n \<Rightarrow> n)"

text \<open>
  The step handlers return the new state and whether they called \<open>next_level()\<close>.
  Drawing the sprites (\<open>_render_grid\<close>) belongs to the engine and is not part of the state.
\<close>

subsection \<open>Level 1: colour echo\<close>

definition step_level_1 :: "pm07 \<Rightarrow> game_action \<Rightarrow> (pm07 \<times> bool) option" where
  "step_level_1 s0 a =
     (case get_dir a of (dx, dy) \<Rightarrow>
        if dx = 0 \<and> dy = 0 then Some (s0, False)
        else
          let s1 = save_state s0 in
          case pm_grid_size s1 of (w, h) \<Rightarrow>
            do {
              leaving_color \<leftarrow> grid_get (pm_grid s1) (pm_cursor_y s1) (pm_cursor_x s1);
              let s2 = (if leaving_color \<noteq> C_LIGHT_GRAY \<and> leaving_color \<noteq> C_BLACK
                        then s1\<lparr>pm_prev_color := leaving_color\<rparr> else s1);
              let nx = max 0 (min (w - 1) (pm_cursor_x s2 + dx));
              let ny = max 0 (min (h - 1) (pm_cursor_y s2 + dy));
              let s3 = s2\<lparr>pm_cursor_x := nx, pm_cursor_y := ny\<rparr>;
              c \<leftarrow> grid_get (pm_grid s3) ny nx;
              s4 \<leftarrow> (if c = C_LIGHT_GRAY \<and> pm_prev_color s3 \<noteq> C_BLACK
                     then map_option (\<lambda>g. s3\<lparr>pm_grid := g\<rparr>)
                            (grid_set (pm_grid s3) ny nx (pm_prev_color s3))
                     else Some s3);
              Some (s4, \<not> list_ex (list_ex (\<lambda>c. c = C_LIGHT_GRAY)) (pm_grid s4))
            })"

subsection \<open>Level 2: flood walker\<close>

text \<open>\<open>all(p(x) for x in xs)\<close> over a generator: it stops at the first false element,
  and an exception raised by \<open>p\<close> before that is passed on.\<close>

fun allM :: "('a \<Rightarrow> bool option) \<Rightarrow> 'a list \<Rightarrow> bool option" where
  "allM p [] = Some True"
| "allM p (x # xs) =
     (case p x of None \<Rightarrow> None | Some b \<Rightarrow> if b then allM p xs else Some False)"

text \<open>\<open>range(n)\<close> and the pairs \<open>for r in range(h) for c in range(w)\<close>.\<close>

definition py_range :: "int \<Rightarrow> int list" where
  "py_range n = [0..n - 1]"

definition range2 :: "int \<Rightarrow> int \<Rightarrow> (int \<times> int) list" where
  "range2 h w = concat (map (\<lambda>r. map (\<lambda>c. (r, c)) (py_range w)) (py_range h))"

definition step_level_2 :: "pm07 \<Rightarrow> game_action \<Rightarrow> (pm07 \<times> bool) option" where
  "step_level_2 s0 a =
     (case get_dir a of (dx, dy) \<Rightarrow>
        if dx = 0 \<and> dy = 0 then Some (s0, False)
        else
          let s1 = save_state s0 in
          case pm_grid_size s1 of (w, h) \<Rightarrow>
            let nx = max 0 (min (w - 1) (pm_cursor_x s1 + dx));
                ny = max 0 (min (h - 1) (pm_cursor_y s1 + dy));
                s2 = s1\<lparr>pm_cursor_x := nx, pm_cursor_y := ny\<rparr>
            in do {
              c1 \<leftarrow> x_c1 (pm_extra s2);
              c2 \<leftarrow> x_c2 (pm_extra s2);
              cur \<leftarrow> grid_get (pm_grid s2) ny nx;
              g \<leftarrow> grid_set (pm_grid s2) ny nx (if cur = c1 then c2 else c1);
              let s3 = s2\<lparr>pm_grid := g\<rparr>;
              first \<leftarrow> grid_get g 0 0;
              won \<leftarrow> allM (\<lambda>(r, c). map_option (\<lambda>v. v = first) (grid_get g r c)) (range2 h w);
              Some (s3, won)
            })"

text \<open>
  Entering level 2: the resets of \<open>on_set_level\<close> followed by \<open>_setup_level_2\<close>. The
  board is filled row by row, and \<open>coin n\<close> is the outcome of the \<open>n\<close>-th test
  \<open>self._rng.random() < 0.4\<close>.
\<close>

definition setup_level_2 :: "int \<Rightarrow> int \<Rightarrow> (nat \<Rightarrow> bool) \<Rightarrow> pm07" where
  "setup_level_2 w h coin =
     \<lparr>pm_grid = map (\<lambda>y. map (\<lambda>x. if coin (nat (y * w + x)) then C_ORANGE else C_CYAN)
                              (py_range w)) (py_range h),
      pm_cursor_x = w div 2, pm_cursor_y = h div 2,
      pm_history = [], pm_phase = 0, pm_prev_color = C_BLACK, pm_last_dx = 0, pm_last_dy = 0,
      pm_extra = empty_extra\<lparr>x_c1 := Some C_CYAN, x_c2 := Some C_ORANGE\<rparr>,
      pm_level_index = 1, pm_grid_size = (w, h)\<rparr>"

subsection \<open>Level 3: ice slide\<close>

text \<open>
  The body of the \<open>while True\<close> loop of \<open>_step_level_3\<close>, from the cell \<open>(cx, cy)\<close>.
  With \<open>dx = dy = 0\<close> the loop would stay on a free cell for ever; the handler never
  calls it so, and the model gives \<open>None\<close> there.
\<close>

definition collect_gem :: "pm07 \<Rightarrow> int \<Rightarrow> int \<Rightarrow> pm07 option" where
  "collect_gem s nx ny =
     map_option (\<lambda>g. s\<lparr>pm_grid := g,
                        pm_extra := (pm_extra s)\<lparr>x_gems_left := Some (gems_left_or 0 (pm_extra s) - 1)\<rparr>\<rparr>)
       (grid_set (pm_grid s) ny nx C_BLACK)"

function slide :: "int \<Rightarrow> int \<Rightarrow> int \<Rightarrow> int \<Rightarrow> pm07 \<Rightarrow> int \<Rightarrow> int \<Rightarrow> (pm07 \<times> int \<times> int) option" where
  "slide w h dx dy s cx cy =
     (if \<not> in_bounds (cx + dx) (cy + dy) w h then Some (s, cx, cy)
      else case grid_get (pm_grid s) (cy + dy) (cx + dx) of
             None \<Rightarrow> None
           | Some cell \<Rightarrow>
               if cell = C_DARK_GRAY then Some (s, cx, cy)
               else if dx = 0 \<and> dy = 0 then None
               else case (if cell = C_GREEN then collect_gem s (cx + dx) (cy + dy) else Some s) of
                      None \<Rightarrow> None
                    | Some s' \<Rightarrow> slide w h dx dy s' (cx + dx) (cy + dy))"
  by pat_completeness auto
termination
  by (relation "measure (\<lambda>(w, h, dx, dy, s, cx, cy).
        if 0 < dx then nat (w - cx) else if dx < 0 then nat (cx + 1)
        else if 0 < dy then nat (h - cy) else nat (cy + 1))")
     (auto simp: in_bounds_def)

declare slide.simps [simp del]

definition step_level_3 :: "pm07 \<Rightarrow> game_action \<Rightarrow> (pm07 \<times> bool) option" where
  "step_level_3 s0 a =
     (case get_dir a of (dx, dy) \<Rightarrow>
        if dx = 0 \<and> dy = 0 then Some (s0, False)
        else
          let s1 = save_state s0 in
          case pm_grid_size s1 of (w, h) \<Rightarrow>
            (case slide w h dx dy s1 (pm_cursor_x s1) (pm_cursor_y s1) of
               None \<Rightarrow> None
             | Some (s2, cx, cy) \<Rightarrow>
                 let s3 = s2\<lparr>pm_cursor_x := cx, pm_cursor_y := cy\<rparr>
                 in Some (s3, gems_left_or 1 (pm_extra s3) \<le> 0)))"

subsection \<open>Level 4: gem collector\<close>

definition step_level_4 :: "pm07 \<Rightarrow> game_action \<Rightarrow> (pm07 \<times> bool) option" where
  "step_level_4 s0 a =
     (case get_dir a of (dx, dy) \<Rightarrow>
        if dx = 0 \<and> dy = 0 then Some (s0, False)
        else
          let s1 = save_state s0 in
          case pm_grid_size s1 of (w, h) \<Rightarrow>
            (case x_wall_positions (pm_extra s1) of
               None \<Rightarrow> None
             | Some wall_positions \<Rightarrow>
                 let nx = pm_cursor_x s1 + dx; ny = pm_cursor_y s1 + dy in
                 if \<not> in_bounds nx ny w h then Some (s1, False)
                 else if (nx, ny) \<in> wall_positions then Some (s1, False)
                 else
                   let s2 = s1\<lparr>pm_cursor_x := nx, pm_cursor_y := ny\<rparr> in
                   do {
                     c \<leftarrow> grid_get (pm_grid s2) ny nx;
                     s3 \<leftarrow> (if c = C_YELLOW then
                              map_option (\<lambda>g. s2\<lparr>pm_grid := g,
                                  pm_extra := (pm_extra s2)\<lparr>x_gems_left :=
                                     Some (gems_left_or 0 (pm_extra s2) - 1)\<rparr>\<rparr>)
                                (grid_set (pm_grid s2) ny nx C_BLACK)
                            else Some s2);
                     Some (s3, gems_left_or 1 (pm_extra s3) \<le> 0)
                   }))"

subsection \<open>Level 5: teleport maze\<close>

definition step_level_5 :: "pm07 \<Rightarrow> game_action \<Rightarrow> (pm07 \<times> bool) option" where
  "step_level_5 s0 a =
     (case get_dir a of (dx, dy) \<Rightarrow>
        if dx = 0 \<and> dy = 0 then Some (s0, False)
        else
          let s1 = save_state s0 in
          case pm_grid_size s1 of (w, h) \<Rightarrow>
            do {
              wall_positions \<leftarrow> x_wall_positions (pm_extra s1);
              teleport_map \<leftarrow> x_teleport_map (pm_extra s1);
              let nx = pm_cursor_x s1 + dx;
              let ny = pm_cursor_y s1 + dy;
              if \<not> in_bounds nx ny w h then Some (s1, False)
              else if (nx, ny) \<in> wall_positions then Some (s1, False)
              else
                let s2 = s1\<lparr>pm_cursor_x := nx, pm_cursor_y := ny\<rparr>;
                    s3 = (case map_of teleport_map (nx, ny) of
                            None \<Rightarrow> s2
                          | Some (dest_x, dest_y) \<Rightarrow> s2\<lparr>pm_cursor_x := dest_x, pm_cursor_y := dest_y\<rparr>)
                in do {
                  ex \<leftarrow> x_exit_x (pm_extra s3);
                  ey \<leftarrow> x_exit_y (pm_extra s3);
                  Some (s3, pm_cursor_x s3 = ex \<and> pm_cursor_y s3 = ey)
                }
            })"

subsection \<open>Level 6: mirror walk\<close>

definition step_level_6 :: "pm07 \<Rightarrow> game_action \<Rightarrow> (pm07 \<times> bool) option" where
  "step_level_6 s0 a =
     (case get_dir a of (dx, dy) \<Rightarrow>
        if dx = 0 \<and> dy = 0 then Some (s0, False)
        else
          let s1 = save_state s0 in
          case pm_grid_size s1 of (w, h) \<Rightarrow>
            do {
              wall_positions \<leftarrow> x_wall_positions (pm_extra s1);
              let mnx = pm_cursor_x s1 + dx;
              let mny = pm_cursor_y s1 + dy;
              let s2 = (if in_bounds mnx mny w h \<and> (mnx, mny) \<notin> wall_positions
                        then s1\<lparr>pm_cursor_x := mnx, pm_cursor_y := mny\<rparr> else s1);
              mirror_x \<leftarrow> x_mirror_x (pm_extra s2);
              mirror_y \<leftarrow> x_mirror_y (pm_extra s2);
              let mrnx = mirror_x - dx;
              let mrny = mirror_y - dy;
              let s3 = (if in_bounds mrnx mrny w h \<and> (mrnx, mrny) \<notin> wall_positions
                        then s2\<lparr>pm_extra := (pm_extra s2)\<lparr>x_mirror_x := Some mrnx,
                                                             x_mirror_y := Some mrny\<rparr>\<rparr>
                        else s2);
              tx \<leftarrow> x_target_x (pm_extra s3);
              ty \<leftarrow> x_target_y (pm_extra s3);
              Some (s3, pm_cursor_x s3 = tx \<and> pm_cursor_y s3 = ty \<and>
                        x_mirror_x (pm_extra s3) = Some tx \<and> x_mirror_y (pm_extra s3) = Some ty)
            })"

subsection \<open>Level 7: sokoban\<close>

text \<open>The loop over \<open>original_targets.items()\<close> that computes \<open>all_matched\<close>.\<close>

fun targets_matched :: "grid \<Rightarrow> (pos \<times> int) list \<Rightarrow> bool option" where
  "targets_matched g [] = Some True"
| "targets_matched g (((tx, ty), expected_bc) # rest) =
     (case grid_get g ty tx of
        None \<Rightarrow> None
      | Some c \<Rightarrow> if c \<noteq> expected_bc then Some False else targets_matched g rest)"

definition step_level_7 :: "pm07 \<Rightarrow> game_action \<Rightarrow> (pm07 \<times> bool) option" where
  "step_level_7 s0 a =
     (case get_dir a of (dx, dy) \<Rightarrow>
        if dx = 0 \<and> dy = 0 then Some (s0, False)
        else
          let s1 = save_state s0 in
          case pm_grid_size s1 of (w, h) \<Rightarrow>
            do {
              wall_positions \<leftarrow> x_wall_positions (pm_extra s1);
              block_colors \<leftarrow> x_block_colors (pm_extra s1);
              target_colors \<leftarrow> x_target_colors (pm_extra s1);
              original_targets \<leftarrow> x_original_targets (pm_extra s1);
              let nx = pm_cursor_x s1 + dx;
              let ny = pm_cursor_y s1 + dy;
              if \<not> in_bounds nx ny w h then Some (s1, False)
              else if (nx, ny) \<in> wall_positions then Some (s1, False)
              else do {
                cell \<leftarrow> grid_get (pm_grid s1) ny nx;
                if cell \<in> block_colors then
                  let push_x = nx + dx; push_y = ny + dy in
                  if \<not> in_bounds push_x push_y w h then Some (s1, False)
                  else if (push_x, push_y) \<in> wall_positions then Some (s1, False)
                  else do {
                    push_dest \<leftarrow> grid_get (pm_grid s1) push_y push_x;
                    if push_dest \<in> block_colors \<or> push_dest = C_DARK_GRAY then Some (s1, False)
                    else do {
                      g1 \<leftarrow> grid_set (pm_grid s1) ny nx
                              (case map_of original_targets (nx, ny) of
                                 Some t \<Rightarrow> t | None \<Rightarrow> C_BLACK);
                      g2 \<leftarrow> grid_set g1 push_y push_x cell;
                      let s2 = s1\<lparr>pm_grid := g2, pm_cursor_x := nx, pm_cursor_y := ny\<rparr>;
                      won \<leftarrow> targets_matched (pm_grid s2) original_targets;
                      Some (s2, won)
                    }
                  }
                else if cell = C_BLACK \<or> cell \<in> target_colors then
                  let s2 = s1\<lparr>pm_cursor_x := nx, pm_cursor_y := ny\<rparr> in
                  do {
                    won \<leftarrow> targets_matched (pm_grid s2) original_targets;
                    Some (s2, won)
                  }
                else Some (s1, False)
              }
            })"

subsection \<open>The step function\<close>

definition handlers :: "(pm07 \<Rightarrow> game_action \<Rightarrow> (pm07 \<times> bool) option) list" where
  "handlers = [step_level_1, step_level_2, step_level_3, step_level_4,
               step_level_5, step_level_6, step_level_7]"

definition pm_step :: "pm07 \<Rightarrow> game_action \<Rightarrow> (pm07 \<times> bool) option" where
  "pm_step s a =
     (if a = ACTION7 then Some (undo s, False)
      else case py_nth handlers (int (pm_level_index s)) of
             None \<Rightarrow> None
           | Some handler \<Rightarrow> handler s a)"

text \<open>A run of actions inside one level: it ends with \<open>None\<close> when a step raises or
  wins the level.\<close>

fun pm_play :: "pm07 \<Rightarrow> game_action list \<Rightarrow> pm07 option" where
  "pm_play s [] = Some s"
| "pm_play s (a # as) =
     (case pm_step s a of
        None \<Rightarrow> None
      | Some (s', won) \<Rightarrow> if won then None else pm_play s' as)"

subsection \<open>The joint search of the mirror level\<close>

text \<open>A search node \<open>(main_x, main_y, mirror_x, mirror_y)\<close>.\<close>

type_synonym joint = "int \<times> int \<times> int \<times> int"

datatype ('r, 's) loop = Return 'r | Next 's

definition directions :: "(int \<times> int) list" where
  "directions = [(0, - 1), (0, 1), (- 1, 0), (1, 0)]"

text \<open>The successor \<open>ns\<close> that the search computes for one direction.\<close>

definition mirror_succ :: "int \<Rightarrow> int \<Rightarrow> pos set \<Rightarrow> joint \<Rightarrow> int \<times> int \<Rightarrow> joint" where
  "mirror_succ w h walls st d =
     (case st of (scx, scy, smx, smy) \<Rightarrow> case d of (dx, dy) \<Rightarrow>
        let (ncx, ncy) = (scx + dx, scy + dy);
            (ncx, ncy) = (if \<not> (0 \<le> ncx \<and> ncx < w \<and> 0 \<le> ncy \<and> ncy < h) \<or> (ncx, ncy) \<in> walls
                          then (scx, scy) else (ncx, ncy));
            (nmx, nmy) = (smx - dx, smy - dy);
            (nmx, nmy) = (if \<not> (0 \<le> nmx \<and> nmx < w \<and> 0 \<le> nmy \<and> nmy < h) \<or> (nmx, nmy) \<in> walls
                          then (smx, smy) else (nmx, nmy))
        in (ncx, ncy, nmx, nmy))"

text \<open>The \<open>for dx, dy in directions\<close> loop for one dequeued node.\<close>

fun mirror_scan :: "int \<Rightarrow> int \<Rightarrow> pos set \<Rightarrow> int \<Rightarrow> int \<Rightarrow> joint \<Rightarrow> (int \<times> int) list \<Rightarrow>
    joint set \<Rightarrow> joint list \<Rightarrow> (bool, joint set \<times> joint list) loop" where
  "mirror_scan w h walls tx ty st [] visited queue = Next (visited, queue)"
| "mirror_scan w h walls tx ty st (d # ds) visited queue =
     (let ns = mirror_succ w h walls st d in
      if ns \<notin> visited then
        (if ns = (tx, ty, tx, ty) then Return True
         else mirror_scan w h walls tx ty st ds (insert ns visited) (queue @ [ns]))
      else mirror_scan w h walls tx ty st ds visited queue)"

text \<open>A small level-4 board used to exercise the handlers: two by two, no walls.\<close>

definition walk_example :: pm07 where
  "walk_example = \<lparr>pm_grid = [[0, 0], [0, 0]], pm_cursor_x = 0, pm_cursor_y = 0,
     pm_history = [], pm_phase = 0, pm_prev_color = 0, pm_last_dx = 0, pm_last_dy = 0,
     pm_extra = empty_extra\<lparr>x_wall_positions := Some {}\<rparr>,
     pm_level_index = 3, pm_grid_size = (2, 2)\<rparr>"

subsection \<open>Termination of the searches\<close>

text \<open>
  Every search below keeps a visited set and a queue. A round either marks a new node, taken
  from a finite universe, or only shortens the queue.
\<close>

lemma bfs_measure_decreases:
  assumes fin: "finite U'" and sub: "U \<subseteq> U'" and mono: "v \<subseteq> v'" and new: "v' - v \<subseteq> U'"
    and len: "v' = v \<Longrightarrow> n < n'"
  shows "((card (U - v'), n), (card (U' - v), n')) \<in> less_than <*lex*> less_than"
proof (cases "v' = v")
  case True
  have "card (U - v) \<le> card (U' - v)"
    using fin sub by (intro card_mono) auto
  with True len show ?thesis by auto
next
  case False
  with mono obtain x where x: "x \<in> v'" "x \<notin> v" by auto
  with new have xU: "x \<in> U' - v" by auto
  have "U - v' \<subset> U' - v" using sub mono x xU by auto
  then have "card (U - v') < card (U' - v)"
    using fin by (intro psubset_card_mono) auto
  then show ?thesis by simp
qed

definition cells :: "int \<Rightarrow> int \<Rightarrow> pos set" where
  "cells w h = {0..<w} \<times> {0..<h}"

definition main_of :: "joint \<Rightarrow> pos" where
  "main_of j = (fst j, fst (snd j))"

definition mirror_of :: "joint \<Rightarrow> pos" where
  "mirror_of j = snd (snd j)"

definition joint_universe :: "int \<Rightarrow> int \<Rightarrow> joint list \<Rightarrow> joint set" where
  "joint_universe w h queue =
     {j. main_of j \<in> cells w h \<union> main_of ` set queue
       \<and> mirror_of j \<in> cells w h \<union> mirror_of ` set queue}"

lemma finite_joint_universe: "finite (joint_universe w h queue)"
proof -
  let ?A = "cells w h \<union> main_of ` set queue" and ?B = "cells w h \<union> mirror_of ` set queue"
  have "joint_universe w h queue \<subseteq> (\<lambda>(p, q). (fst p, snd p, q)) ` (?A \<times> ?B)"
  proof
    fix j assume "j \<in> joint_universe w h queue"
    then have "(main_of j, mirror_of j) \<in> ?A \<times> ?B" by (simp add: joint_universe_def)
    moreover have "j = (\<lambda>(p, q). (fst p, snd p, q)) (main_of j, mirror_of j)"
      by (simp add: main_of_def mirror_of_def)
    ultimately show "j \<in> (\<lambda>(p, q). (fst p, snd p, q)) ` (?A \<times> ?B)" by (rule rev_image_eqI)
  qed
  moreover have "finite (?A \<times> ?B)" by (simp add: cells_def)
  ultimately show ?thesis by (meson finite_imageI finite_subset)
qed

lemma mirror_succ_in_universe:
  "mirror_succ w h walls st d \<in> joint_universe w h (st # queue)"
proof -
  obtain a b c e where st: "st = (a, b, c, e)" by (cases st) auto
  obtain dx dy where d: "d = (dx, dy)" by (cases d)
  show ?thesis
    unfolding st d mirror_succ_def
    by (auto simp: joint_universe_def main_of_def mirror_of_def cells_def Let_def)
qed

lemma image_universe_closed:
  assumes new: "\<And>n. n \<in> set new \<Longrightarrow> f n \<in> C \<union> f ` insert st (set queue)"
    and x: "x \<in> C \<union> f ` set (queue @ new)"
  shows "x \<in> C \<union> f ` set (st # queue)"
proof (cases "x \<in> C")
  case True
  then show ?thesis by simp
next
  case False
  with x obtain n where n: "n \<in> set queue \<union> set new" and xn: "x = f n" by auto
  show ?thesis
  proof (cases "n \<in> set queue")
    case True
    with xn show ?thesis by simp
  next
    case False
    with n have "n \<in> set new" by simp
    from new [OF this] xn show ?thesis by simp
  qed
qed

lemma joint_universe_closed:
  assumes "set new \<subseteq> joint_universe w h (st # queue)"
  shows "joint_universe w h (queue @ new) \<subseteq> joint_universe w h (st # queue)"
proof
  fix j assume j: "j \<in> joint_universe w h (queue @ new)"
  have m: "main_of n \<in> cells w h \<union> main_of ` insert st (set queue)"
    and r: "mirror_of n \<in> cells w h \<union> mirror_of ` insert st (set queue)" if "n \<in> set new" for n
    using assms that by (auto simp: joint_universe_def)
  from j have jm: "main_of j \<in> cells w h \<union> main_of ` set (queue @ new)"
    and jr: "mirror_of j \<in> cells w h \<union> mirror_of ` set (queue @ new)"
    by (simp_all add: joint_universe_def)
  have "main_of j \<in> cells w h \<union> main_of ` set (st # queue)"
    using m jm by (rule image_universe_closed)
  moreover have "mirror_of j \<in> cells w h \<union> mirror_of ` set (st # queue)"
    using r jr by (rule image_universe_closed)
  ultimately show "j \<in> joint_universe w h (st # queue)" by (simp add: joint_universe_def)
qed

lemma mirror_scan_Next:
  "mirror_scan w h walls tx ty st ds visited queue = Next (v', q') \<Longrightarrow>
     visited \<subseteq> v' \<and> v' - visited \<subseteq> mirror_succ w h walls st ` set ds
     \<and> (\<exists>new. q' = queue @ new \<and> set new = v' - visited)"
proof (induction ds arbitrary: visited queue)
  case Nil
  then show ?case by auto
next
  case (Cons d ds)
  let ?ns = "mirror_succ w h walls st d"
  show ?case
  proof (cases "?ns \<in> visited")
    case True
    with Cons.prems have "mirror_scan w h walls tx ty st ds visited queue = Next (v', q')"
      by simp
    from Cons.IH [OF this] show ?thesis by auto
  next
    case False
    with Cons.prems have rec:
      "mirror_scan w h walls tx ty st ds (insert ?ns visited) (queue @ [?ns]) = Next (v', q')"
      by (auto simp: Let_def split: if_splits)
    from Cons.IH [OF rec] obtain new where
      1: "insert ?ns visited \<subseteq> v'" and 2: "v' - insert ?ns visited \<subseteq> mirror_succ w h walls st ` set ds"
      and 3: "q' = (queue @ [?ns]) @ new" and 4: "set new = v' - insert ?ns visited"
      by auto
    have "q' = queue @ (?ns # new)" using 3 by simp
    moreover have "set (?ns # new) = v' - visited" using 1 4 False by auto
    ultimately show ?thesis using 1 2 by (intro conjI exI [of _ "?ns # new"]) auto
  qed
qed

lemma mirror_scan_decreases:
  assumes scan: "mirror_scan w h walls tx ty st directions visited queue = Next (v', q')"
  shows "((card (joint_universe w h q' - v'), length q'),
         (card (joint_universe w h (st # queue) - visited), length (st # queue)))
        \<in> less_than <*lex*> less_than"
proof -
  from mirror_scan_Next [OF scan] obtain new where
    mono: "visited \<subseteq> v'" and succ: "v' - visited \<subseteq> mirror_succ w h walls st ` set directions"
    and q': "q' = queue @ new" and new: "set new = v' - visited"
    by auto
  have inU: "v' - visited \<subseteq> joint_universe w h (st # queue)"
  proof
    fix j assume "j \<in> v' - visited"
    with succ obtain d where "j = mirror_succ w h walls st d" by auto
    then show "j \<in> joint_universe w h (st # queue)" by (simp add: mirror_succ_in_universe)
  qed
  have "set new \<subseteq> joint_universe w h (st # queue)" using inU new by simp
  then have sub: "joint_universe w h q' \<subseteq> joint_universe w h (st # queue)"
    unfolding q' by (rule joint_universe_closed)
  have len: "v' = visited \<Longrightarrow> length q' < length (st # queue)"
    using new q' by simp
  show ?thesis
    using finite_joint_universe sub mono inU len by (rule bfs_measure_decreases)
qed

text \<open>The \<open>while queue\<close> loop of \<open>_bfs_mirror_solvable\<close>.\<close>

function bfs_mirror_loop :: "int \<Rightarrow> int \<Rightarrow> pos set \<Rightarrow> int \<Rightarrow> int \<Rightarrow> joint set \<Rightarrow> joint list \<Rightarrow> bool" where
  "bfs_mirror_loop w h walls tx ty visited [] = False"
| "bfs_mirror_loop w h walls tx ty visited (st # queue) =
     (case mirror_scan w h walls tx ty st directions visited queue of
        Return b \<Rightarrow> b
      | Next (visited', queue') \<Rightarrow> bfs_mirror_loop w h walls tx ty visited' queue')"
  by pat_completeness auto
termination
  by (relation "inv_image (less_than <*lex*> less_than)
        (\<lambda>(w, h, walls, tx, ty, visited, queue).
           (card (joint_universe w h queue - visited), length queue))")
     (auto intro: wf_inv_image dest: mirror_scan_decreases simp del: mirror_scan.simps)

definition bfs_mirror_solvable ::
    "int \<Rightarrow> int \<Rightarrow> pos set \<Rightarrow> int \<Rightarrow> int \<Rightarrow> int \<Rightarrow> int \<Rightarrow> int \<Rightarrow> int \<Rightarrow> bool" where
  "bfs_mirror_solvable w h walls cx cy mx my tx ty =
     (if cx = tx \<and> cy = ty \<and> mx = tx \<and> my = ty then True
      else bfs_mirror_loop w h walls tx ty {(cx, cy, mx, my)} [(cx, cy, mx, my)])"

text \<open>Puzzle 0 of the hand-made library of level 6, as \<open>_setup_level_6\<close> installs it.\<close>

definition mirror_example :: pm07 where
  "mirror_example = \<lparr>pm_grid =
       [[0, 0, 0, 0, 0, 0, 0, 0],
        [0, 0, 1, 0, 1, 0, 0, 0],
        [0, 0, 1, 0, 1, 0, 0, 0],
        [0, 0, 0, 2, 0, 0, 0, 0],
        [0, 0, 1, 0, 1, 0, 0, 0],
        [0, 0, 1, 0, 1, 0, 0, 0],
        [0, 0, 0, 0, 0, 0, 0, 0],
        [0, 0, 0, 0, 0, 0, 0, 0]],
     pm_cursor_x = 3, pm_cursor_y = 0,
     pm_history = [], pm_phase = 0, pm_prev_color = 0, pm_last_dx = 0, pm_last_dy = 0,
     pm_extra = empty_extra\<lparr>
       x_wall_positions := Some {(2, 1), (4, 1), (2, 2), (4, 2), (2, 4), (4, 4), (2, 5), (4, 5)},
       x_mirror_x := Some 3, x_mirror_y := Some 6, x_target_x := Some 3, x_target_y := Some 3\<rparr>,
     pm_level_index = 5, pm_grid_size = (8, 8)\<rparr>"

text \<open>
  What the search is measured against. \<open>mirror_play\<close> is the game itself: one joint
  position leads to another when some state with these walls and this board size, standing
  at the first, is taken to the second by \<open>_step_level_6\<close> on a directional action.
  \<open>mirror_moves\<close> is the expansion of the search: the successors over \<open>directions\<close>.
\<close>

definition mirror_moves :: "int \<Rightarrow> int \<Rightarrow> pos set \<Rightarrow> (joint \<times> joint) set" where
  "mirror_moves w h walls = {(j, j'). \<exists>d \<in> set directions. j' = mirror_succ w h walls j d}"

definition joint_of :: "pm07 \<Rightarrow> joint option" where
  "joint_of s = do {
     mx \<leftarrow> x_mirror_x (pm_extra s);
     my \<leftarrow> x_mirror_y (pm_extra s);
     Some (pm_cursor_x s, pm_cursor_y s, mx, my)
   }"

definition mirror_play :: "int \<Rightarrow> int \<Rightarrow> pos set \<Rightarrow> (joint \<times> joint) set" where
  "mirror_play w h walls =
     {(j, j'). \<exists>s a s' won. pm_grid_size s = (w, h) \<and> x_wall_positions (pm_extra s) = Some walls
        \<and> joint_of s = Some j \<and> get_dir a \<noteq> (0, 0)
        \<and> step_level_6 s a = Some (s', won) \<and> joint_of s' = Some j'}"

section \<open>cd01: connecting coloured endpoints\<close>

text \<open>
  A Python dictionary that is iterated is an association list in insertion order: storing
  under a key that is present keeps its place, a new key goes to the end.
\<close>

fun dict_set :: "('k \<times> 'v) list \<Rightarrow> 'k \<Rightarrow> 'v \<Rightarrow> ('k \<times> 'v) list" where
  "dict_set [] k v = [(k, v)]"
| "dict_set ((k', v') # kvs) k v =
     (if k' = k then (k, v) # kvs else (k', v') # dict_set kvs k v)"

definition DIRS :: "(int \<times> int) list" where
  "DIRS = [(0, - 1), (0, 1), (- 1, 0), (1, 0)]"

record cd01 =
  cd_grid_w :: int
  cd_grid_h :: int
  cd_grid :: grid
  cd_endpoints :: "(int \<times> pos \<times> pos) list"
  cd_bridges :: "pos set"
  cd_cursor_x :: int
  cd_cursor_y :: int
  cd_selected_color :: int
  cd_drawn_paths :: "(int \<times> pos list) list"
  cd_step_count :: int
  cd_max_steps :: int
  cd_game_over :: bool

text \<open>\<open>self.drawn_paths.get(color, [])\<close>.\<close>

definition path_of :: "cd01 \<Rightarrow> int \<Rightarrow> pos list" where
  "path_of s color = (case map_of (cd_drawn_paths s) color of None \<Rightarrow> [] | Some p \<Rightarrow> p)"

fun other_occupant_in :: "(int \<times> pos list) list \<Rightarrow> pos \<Rightarrow> int \<Rightarrow> int" where
  "other_occupant_in [] pos exclude_color = 0"
| "other_occupant_in ((cid, p) # rest) pos exclude_color =
     (if cid \<noteq> exclude_color \<and> pos \<in> set p then cid
      else other_occupant_in rest pos exclude_color)"

definition other_occupant :: "cd01 \<Rightarrow> pos \<Rightarrow> int \<Rightarrow> int" where
  "other_occupant s pos exclude_color = other_occupant_in (cd_drawn_paths s) pos exclude_color"

definition move_cursor :: "cd01 \<Rightarrow> int \<Rightarrow> int \<Rightarrow> cd01" where
  "move_cursor s dx dy =
     (let nx = cd_cursor_x s + dx; ny = cd_cursor_y s + dy in
      if 0 \<le> nx \<and> nx < cd_grid_w s \<and> 0 \<le> ny \<and> ny < cd_grid_h s
      then s\<lparr>cd_cursor_x := nx, cd_cursor_y := ny\<rparr> else s)"

definition undo_last_cell :: "cd01 \<Rightarrow> int \<Rightarrow> cd01 option" where
  "undo_last_cell s color =
     (case map_of (cd_drawn_paths s) color of
        None \<Rightarrow> None
      | Some path \<Rightarrow>
          if path = [] then Some s
          else
            let removed = last path;
                s1 = s\<lparr>cd_drawn_paths := dict_set (cd_drawn_paths s) color (butlast path)\<rparr>
            in case removed of (rx, ry) \<Rightarrow>
                 (case map_of (cd_endpoints s1) color of
                    None \<Rightarrow> None
                  | Some (ep1, ep2) \<Rightarrow>
                      if removed = ep1 \<or> removed = ep2 then Some s1
                      else do {
                        c \<leftarrow> grid_get (cd_grid s1) ry rx;
                        if c = color then
                          map_option (\<lambda>g. s1\<lparr>cd_grid := g\<rparr>)
                            (grid_set (cd_grid s1) ry rx (other_occupant s1 removed color))
                        else Some s1
                      }))"

text \<open>The body of the loop of \<open>_clear_drawn_path\<close> for one cell of the old path.\<close>

definition clear_cell :: "cd01 \<Rightarrow> int \<Rightarrow> pos \<Rightarrow> pos \<Rightarrow> grid \<Rightarrow> pos \<Rightarrow> grid option" where
  "clear_cell s color ep1 ep2 g pos =
     (if pos = ep1 \<or> pos = ep2 then Some g
      else case pos of (px, py) \<Rightarrow>
        do {
          c \<leftarrow> grid_get g py px;
          if c = color then grid_set g py px (other_occupant s pos color) else Some g
        })"

definition clear_drawn_path :: "cd01 \<Rightarrow> int \<Rightarrow> cd01 option" where
  "clear_drawn_path s color =
     (case map_of (cd_endpoints s) color of
        None \<Rightarrow> None
      | Some (ep1, ep2) \<Rightarrow>
          (case foldM (clear_cell s color ep1 ep2) (path_of s color) (cd_grid s) of
             None \<Rightarrow> None
           | Some g \<Rightarrow>
               Some (s\<lparr>cd_grid := g, cd_drawn_paths := dict_set (cd_drawn_paths s) color []\<rparr>)))"

definition handle_select :: "cd01 \<Rightarrow> cd01 option" where
  "handle_select s =
     (let pos = (cd_cursor_x s, cd_cursor_y s) in
      if cd_selected_color s > 0 then Some (s\<lparr>cd_selected_color := 0\<rparr>)
      else case find (\<lambda>(cid, ep1, ep2). pos = ep1 \<or> pos = ep2) (cd_endpoints s) of
             None \<Rightarrow> Some s
           | Some (cid, ep1, ep2) \<Rightarrow>
               (case clear_drawn_path s cid of
                  None \<Rightarrow> None
                | Some s1 \<Rightarrow>
                    Some (s1\<lparr>cd_selected_color := cid,
                             cd_drawn_paths := dict_set (cd_drawn_paths s1) cid [pos]\<rparr>)))"

definition handle_undo :: "cd01 \<Rightarrow> cd01 option" where
  "handle_undo s =
     (if cd_selected_color s \<le> 0 then Some s
      else if length (path_of s (cd_selected_color s)) \<le> 1 then Some s
      else case undo_last_cell s (cd_selected_color s) of
             None \<Rightarrow> None
           | Some s1 \<Rightarrow>
               let path = path_of s1 (cd_selected_color s1) in
               if path \<noteq> [] then
                 Some (s1\<lparr>cd_cursor_x := fst (last path), cd_cursor_y := snd (last path)\<rparr>)
               else Some s1)"

text \<open>\<open>path.append(target)\<close> on the list stored under \<open>color\<close>.\<close>

definition append_cell :: "cd01 \<Rightarrow> int \<Rightarrow> pos list \<Rightarrow> pos \<Rightarrow> cd01" where
  "append_cell s color path target =
     s\<lparr>cd_drawn_paths := dict_set (cd_drawn_paths s) color (path @ [target])\<rparr>"

definition extend_path :: "cd01 \<Rightarrow> int \<Rightarrow> int \<Rightarrow> cd01 option" where
  "extend_path s dx dy =
     (let nx = cd_cursor_x s + dx; ny = cd_cursor_y s + dy in
      if \<not> (0 \<le> nx \<and> nx < cd_grid_w s \<and> 0 \<le> ny \<and> ny < cd_grid_h s) then Some s
      else
        let color = cd_selected_color s in
        case map_of (cd_drawn_paths s) color of
          None \<Rightarrow> Some s
        | Some path \<Rightarrow>
            if path = [] then Some s
            else
              let target = (nx, ny) in
              if length path \<ge> 2 \<and> target = path ! (length path - 2) then
                map_option (\<lambda>s1. s1\<lparr>cd_cursor_x := nx, cd_cursor_y := ny\<rparr>) (undo_last_cell s color)
              else if target \<in> set path then Some s
              else
                case map_of (cd_endpoints s) color of
                  None \<Rightarrow> None
                | Some (ep1, ep2) \<Rightarrow>
                    let start_ep = hd path;
                        other_ep = (if start_ep = ep1 then ep2 else ep1)
                    in
                    if target = other_ep then
                      Some ((append_cell s color path target)
                              \<lparr>cd_cursor_x := nx, cd_cursor_y := ny, cd_selected_color := 0\<rparr>)
                    else do {
                      c \<leftarrow> grid_get (cd_grid s) ny nx;
                      if c = 0 then do {
                        g \<leftarrow> grid_set (cd_grid s) ny nx color;
                        Some ((append_cell s color path target)
                                \<lparr>cd_grid := g, cd_cursor_x := nx, cd_cursor_y := ny\<rparr>)
                      }
                      else if target \<in> cd_bridges s \<and> c \<noteq> color then
                        Some ((append_cell s color path target)
                                \<lparr>cd_cursor_x := nx, cd_cursor_y := ny\<rparr>)
                      else Some s
                    })"

subsection \<open>The win check\<close>

text \<open>The \<open>for dx, dy in DIRS\<close> loop of \<open>_path_connects\<close> for one dequeued cell.\<close>

fun connects_scan :: "pos \<Rightarrow> (int \<times> int) list \<Rightarrow> pos list \<Rightarrow> pos set \<Rightarrow> pos list \<Rightarrow> pos set \<times> pos list" where
  "connects_scan pos [] allowed visited queue = (visited, queue)"
| "connects_scan pos ((dx, dy) # ds) allowed visited queue =
     (let nb = (fst pos + dx, snd pos + dy) in
      if nb \<notin> visited \<and> nb \<in> set allowed
      then connects_scan pos ds allowed (insert nb visited) (queue @ [nb])
      else connects_scan pos ds allowed visited queue)"

lemma connects_scan_grows:
  "connects_scan pos ds allowed visited queue = (v', q') \<Longrightarrow>
     visited \<subseteq> v' \<and> v' - visited \<subseteq> set allowed \<and> (v' = visited \<longrightarrow> q' = queue)"
proof (induction ds arbitrary: visited queue)
  case Nil
  then show ?case by simp
next
  case (Cons d ds)
  obtain dx dy where d: "d = (dx, dy)" by (cases d)
  let ?nb = "(fst pos + dx, snd pos + dy)"
  show ?case
  proof (cases "?nb \<notin> visited \<and> ?nb \<in> set allowed")
    case True
    with Cons.prems d have "connects_scan pos ds allowed (insert ?nb visited) (queue @ [?nb]) = (v', q')"
      by (simp add: Let_def)
    from Cons.IH [OF this] True show ?thesis by auto
  next
    case False
    with Cons.prems d have "connects_scan pos ds allowed visited queue = (v', q')"
      by (auto simp: Let_def)
    from Cons.IH [OF this] show ?thesis .
  qed
qed

lemma connects_scan_decreases:
  assumes "connects_scan pos ds allowed visited queue = (v', q')"
  shows "((card (set allowed - v'), length q'), (card (set allowed - visited), Suc (length queue)))
           \<in> less_than <*lex*> less_than"
  using connects_scan_grows [OF assms]
  by (intro bfs_measure_decreases) auto

lemma connects_scan_measure:
  "(case connects_scan pos ds allowed visited queue of
      (v, q) \<Rightarrow> (card (set allowed - v), length q),
    card (set allowed - visited), Suc (length queue)) \<in> less_than <*lex*> less_than"
proof (cases "connects_scan pos ds allowed visited queue")
  case (Pair v q)
  from connects_scan_decreases [OF this] Pair show ?thesis by simp
qed

text \<open>The \<open>while queue\<close> loop of \<open>_path_connects\<close>; \<open>allowed\<close> is the set \<open>cells\<close>.\<close>

function connects_loop :: "pos list \<Rightarrow> pos \<Rightarrow> pos set \<Rightarrow> pos list \<Rightarrow> bool" where
  "connects_loop allowed end_pos visited [] = False"
| "connects_loop allowed end_pos visited (pos # queue) =
     (if pos = end_pos then True
      else case connects_scan pos DIRS allowed visited queue of
             (v', q') \<Rightarrow> connects_loop allowed end_pos v' q')"
  by pat_completeness auto
termination
  by (relation "inv_image (less_than <*lex*> less_than)
        (\<lambda>(allowed, end_pos, visited, queue). (card (set allowed - visited), length queue))")
     (auto simp: connects_scan_measure)

definition path_connects :: "cd01 \<Rightarrow> int \<Rightarrow> pos \<Rightarrow> pos \<Rightarrow> bool" where
  "path_connects s color start end_pos =
     connects_loop (end_pos # start # path_of s color) end_pos {start} [start]"

text \<open>The cells gathered in \<open>covered\<close>, with repetitions; the set has
  \<open>length (remdups \<dots>)\<close> elements.\<close>

definition covered :: "cd01 \<Rightarrow> pos list" where
  "covered s = concat (map (\<lambda>(cid, ep1, ep2). [ep1, ep2]) (cd_endpoints s))
                 @ concat (map snd (cd_drawn_paths s))"

definition check_win :: "cd01 \<Rightarrow> bool" where
  "check_win s =
     (if int (length (remdups (covered s))) < cd_grid_w s * cd_grid_h s then False
      else list_all (\<lambda>(cid, ep1, ep2). path_connects s cid ep1 ep2) (cd_endpoints s))"

subsection \<open>Levels and the game loop\<close>

text \<open>\<open>LEVEL_CONFIGS\<close> as pairs of the grid size and \<open>max_steps\<close>, and \<open>PUZZLES\<close> as
  pairs of the endpoints and the bridges.\<close>

definition LEVEL_CONFIGS :: "((int \<times> int) \<times> int) list" where
  "LEVEL_CONFIGS = [((8, 8), 150), ((16, 16), 400), ((8, 8), 300), ((16, 16), 600),
                    ((32, 32), 1600), ((32, 32), 1600)]"

definition PUZZLES :: "((int \<times> pos \<times> pos) list \<times> pos set) list" where
  "PUZZLES =
    [([(1, (6, 6), (0, 4)), (2, (0, 3), (2, 0)), (3, (3, 0), (5, 3)), (4, (5, 4), (3, 4)),
       (5, (3, 5), (2, 1))], {}),
     ([(1, (2, 13), (15, 14)), (2, (14, 14), (14, 12)), (3, (14, 11), (13, 11)),
       (4, (13, 12), (8, 12)), (5, (9, 12), (10, 3)), (6, (9, 3), (4, 8))], {}),
     ([(1, (0, 0), (1, 3)), (2, (0, 4), (1, 7)), (3, (2, 0), (3, 2)), (4, (2, 3), (3, 7)),
       (5, (4, 0), (5, 3)), (6, (4, 4), (5, 7)), (7, (6, 0), (7, 7))], {(3, 3)}),
     ([(1, (0, 0), (7, 3)), (2, (8, 0), (15, 3)), (3, (0, 4), (7, 7)), (4, (8, 4), (15, 7)),
       (5, (0, 8), (7, 11)), (6, (8, 8), (15, 11)), (7, (0, 12), (7, 15)),
       (8, (8, 12), (15, 15))], {(7, 4), (8, 11)}),
     ([(1, (0, 0), (31, 3)), (2, (0, 4), (31, 6)), (3, (0, 7), (31, 10)), (4, (0, 11), (31, 13)),
       (5, (0, 14), (31, 17)), (6, (0, 18), (31, 20)), (7, (0, 21), (31, 23)),
       (8, (0, 24), (31, 27)), (9, (0, 28), (31, 31))], {(15, 6), (16, 21)}),
     ([(1, (0, 0), (31, 2)), (2, (0, 3), (31, 5)), (3, (0, 6), (31, 8)), (4, (0, 9), (31, 11)),
       (5, (0, 12), (31, 14)), (6, (0, 15), (31, 17)), (7, (0, 18), (31, 20)),
       (8, (0, 21), (31, 23)), (9, (0, 24), (31, 26)), (10, (0, 27), (31, 31))],
      {(10, 3), (21, 3), (10, 20), (21, 20)})]"

text \<open>The loop of \<open>on_set_level\<close> that writes the two endpoints of a colour on the grid.\<close>

definition place_endpoints :: "grid \<Rightarrow> int \<times> pos \<times> pos \<Rightarrow> grid option" where
  "place_endpoints g e =
     (case e of (cid, ep1, ep2) \<Rightarrow>
        do { g1 \<leftarrow> grid_set g (snd ep1) (fst ep1) cid; grid_set g1 (snd ep2) (fst ep2) cid })"

definition enter_level ::
  "int \<Rightarrow> int \<Rightarrow> int \<Rightarrow> (int \<times> pos \<times> pos) list \<Rightarrow> pos set \<Rightarrow> cd01 option" where
  "enter_level gw gh max_steps endpoints bridges =
     do {
       g \<leftarrow> foldM place_endpoints endpoints (replicate (nat gh) (replicate (nat gw) 0));
       first \<leftarrow> map_of endpoints 1;
       Some \<lparr>cd_grid_w = gw, cd_grid_h = gh, cd_grid = g, cd_endpoints = endpoints,
             cd_bridges = bridges, cd_cursor_x = fst (fst first), cd_cursor_y = snd (fst first),
             cd_selected_color = 0, cd_drawn_paths = map (\<lambda>(cid, ep). (cid, [])) endpoints,
             cd_step_count = 0, cd_max_steps = max_steps, cd_game_over = False\<rparr>
     }"

definition on_set_level :: "nat \<Rightarrow> cd01 option" where
  "on_set_level level_index =
     (if level_index < length LEVEL_CONFIGS \<and> level_index < length PUZZLES then
        (case (LEVEL_CONFIGS ! level_index, PUZZLES ! level_index) of
           (((gw, gh), max_steps), (endpoints, bridges)) \<Rightarrow>
             enter_level gw gh max_steps endpoints bridges)
      else None)"

text \<open>
  \<open>step\<close>: the action is dispatched, then the win check runs; the flag of the result tells
  that the level is won. The two drawing calls between them only read the state.
\<close>

definition cd_dir :: "game_action \<Rightarrow> (int \<times> int) option" where
  "cd_dir a = (if a = ACTION1 then Some (0, - 1) else if a = ACTION2 then Some (0, 1)
               else if a = ACTION3 then Some (- 1, 0) else if a = ACTION4 then Some (1, 0)
               else None)"

definition cd_dispatch :: "cd01 \<Rightarrow> game_action \<Rightarrow> cd01 option" where
  "cd_dispatch s a =
     (case cd_dir a of
        Some (dx, dy) \<Rightarrow>
          if cd_selected_color s > 0 then extend_path s dx dy else Some (move_cursor s dx dy)
      | None \<Rightarrow>
          if a = ACTION5 then handle_select s
          else if a = ACTION7 then handle_undo s
          else Some s)"

definition cd_step :: "cd01 \<Rightarrow> game_action \<Rightarrow> (cd01 \<times> bool) option" where
  "cd_step s0 a =
     (case cd_dispatch (s0\<lparr>cd_step_count := cd_step_count s0 + 1\<rparr>) a of
        None \<Rightarrow> None
      | Some s \<Rightarrow>
          if check_win s then Some (s, True)
          else if cd_step_count s \<ge> cd_max_steps s then Some (s\<lparr>cd_game_over := True\<rparr>, False)
          else Some (s, False))"

text \<open>A run of actions inside one level: it ends with \<open>None\<close> when a step raises or
  wins the level.\<close>

fun cd_play :: "cd01 \<Rightarrow> game_action list \<Rightarrow> cd01 option" where
  "cd_play s [] = Some s"
| "cd_play s (a # as) =
     (case cd_step s a of
        None \<Rightarrow> None
      | Some (s', won) \<Rightarrow> if won then None else cd_play s' as)"

subsection \<open>Cells of the board\<close>

definition on_board :: "int \<Rightarrow> int \<Rightarrow> pos \<Rightarrow> bool" where
  "on_board w h p = (0 \<le> fst p \<and> fst p < w \<and> 0 \<le> snd p \<and> snd p < h)"

definition cell :: "grid \<Rightarrow> pos \<Rightarrow> int option" where
  "cell g p = grid_get g (snd p) (fst p)"

text \<open>
  The state of the paths that every operation keeps: the keys of the two dictionaries are
  distinct; the colours are positive; each endpoint is on the board and shows its colour on
  the grid; each path is free of repetitions and starts at an endpoint of its colour; and
  each cell of a path is on the board, is not empty on the grid, and shows the colour of the
  path unless it is a bridge.
\<close>

definition paths_ok ::
  "int \<Rightarrow> int \<Rightarrow> grid \<Rightarrow> (int \<times> pos \<times> pos) list \<Rightarrow> pos set \<Rightarrow> (int \<times> pos list) list \<Rightarrow> bool" where
  "paths_ok w h g eps br ps \<longleftrightarrow>
     distinct (map fst ps) \<and> distinct (map fst eps)
   \<and> (\<forall>(c, e1, e2) \<in> set eps. 0 < c \<and> on_board w h e1 \<and> on_board w h e2
         \<and> cell g e1 = Some c \<and> cell g e2 = Some c)
   \<and> (\<forall>(c, p) \<in> set ps. 0 < c \<and> distinct p
         \<and> (p \<noteq> [] \<longrightarrow> (\<exists>(c', e1, e2) \<in> set eps. c' = c \<and> (hd p = e1 \<or> hd p = e2)))
         \<and> (\<forall>x \<in> set p. on_board w h x \<and> cell g x \<noteq> Some 0 \<and> (x \<in> br \<or> cell g x = Some c)))"

text \<open>A grid on which some cells of the colour may have been handed to their other occupant.\<close>

definition released ::
  "int \<Rightarrow> int \<Rightarrow> (int \<times> pos list) list \<Rightarrow> int \<Rightarrow> pos set \<Rightarrow> grid \<Rightarrow> grid \<Rightarrow> bool" where
  "released w h ps color R g g' \<longleftrightarrow>
     (\<forall>x. on_board w h x \<longrightarrow>
        cell g' x = cell g x
        \<or> (x \<in> R \<and> cell g x = Some color \<and> cell g' x = Some (other_occupant_in ps x color)))"

text \<open>With it, while a colour is being drawn, the cursor stands on the last cell of its path.\<close>

definition cd_inv :: "cd01 \<Rightarrow> bool" where
  "cd_inv s \<longleftrightarrow>
     paths_ok (cd_grid_w s) (cd_grid_h s) (cd_grid s) (cd_endpoints s) (cd_bridges s)
       (cd_drawn_paths s)
   \<and> (0 < cd_selected_color s \<longrightarrow>
        (case map_of (cd_drawn_paths s) (cd_selected_color s) of
           None \<Rightarrow> True
         | Some p \<Rightarrow> p = [] \<or> (cd_cursor_x s, cd_cursor_y s) = last p))"

subsection \<open>Runs of operations\<close>

text \<open>
  The operations on the paths: the select action, one call of \<open>_extend_path\<close>, the undo
  action, \<open>_clear_drawn_path\<close> for a colour, and a whole \<open>step\<close> of the game (which moves the
  cursor when no colour is selected). A run applies a list of them in order and is \<open>None\<close>
  when one of them raises.
\<close>

datatype cd_op = Select | Extend int int | Undo | Clear int | Step game_action

fun cd_apply :: "cd01 \<Rightarrow> cd_op \<Rightarrow> cd01 option" where
  "cd_apply s Select = handle_select s"
| "cd_apply s (Extend dx dy) = extend_path s dx dy"
| "cd_apply s Undo = handle_undo s"
| "cd_apply s (Clear color) = clear_drawn_path s color"
| "cd_apply s (Step a) = map_option fst (cd_step s a)"

definition cd_run :: "cd01 \<Rightarrow> cd_op list \<Rightarrow> cd01 option" where
  "cd_run s ops = foldM cd_apply ops s"


text \<open>A run on the third level that draws the paths of colours 4 and 3 across the bridge
  at \<open>(3, 3)\<close>.\<close>

definition bridge_moves :: "cd_op list" where
  "bridge_moves = map Step [ACTION4, ACTION4, ACTION2, ACTION2, ACTION2, ACTION5, ACTION4,
     ACTION5, ACTION1, ACTION5, ACTION2]"
section \<open>Facts about the list helpers\<close>

lemma py_nth_in_range:
  "0 \<le> i \<Longrightarrow> i < int (length xs) \<Longrightarrow> py_nth xs i = Some (xs ! nat i)"
  by (simp add: py_nth_def py_index_def)

lemma py_index_less: "py_index n i = Some k \<Longrightarrow> k < n"
  by (auto simp: py_index_def split: if_splits)

lemma py_nth_Some_mem: "py_nth xs i = Some v \<Longrightarrow> v \<in> set xs"
  by (auto simp: py_nth_def dest: py_index_less)

lemma py_set_Some_set: "py_set xs i v = Some ys \<Longrightarrow> set ys \<subseteq> insert v (set xs)"
  by (auto simp: py_set_def dest: subsetD [OF set_update_subset_insert])

lemma py_set_Some_length: "py_set xs i v = Some ys \<Longrightarrow> length ys = length xs"
  by (auto simp: py_set_def)

lemma index_of_Some_iff: "(\<exists>i. index_of xs v = Some i) \<longleftrightarrow> v \<in> set xs"
  by (induction xs) auto

lemma index_of_less: "index_of xs v = Some i \<Longrightarrow> i < length xs"
  by (induction xs arbitrary: i) (auto split: if_splits)

lemma index_of_nth: "index_of xs v = Some i \<Longrightarrow> xs ! i = v"
  by (induction xs arbitrary: i) (auto split: if_splits)

lemma grid_get_palette:
  "palette_grid pool g \<Longrightarrow> grid_get g y x = Some c \<Longrightarrow> c \<in> set pool"
  by (auto simp: grid_get_def palette_grid_def split: bind_splits dest!: py_nth_Some_mem)

lemma grid_set_palette:
  assumes "palette_grid pool g" and "v \<in> set pool" and "grid_set g y x v = Some g'"
  shows "palette_grid pool g'"
proof -
  from assms(3) obtain row row' where
    r: "py_nth g y = Some row" and r': "py_set row x v = Some row'" and g': "py_set g y row' = Some g'"
    by (auto simp: grid_set_def split: bind_splits)
  have "row \<in> set g" using r by (rule py_nth_Some_mem)
  with assms(1) have "\<forall>c \<in> set row. c \<in> set pool" by (simp add: palette_grid_def)
  with py_set_Some_set [OF r'] assms(2) have row'_ok: "\<forall>c \<in> set row'. c \<in> set pool" by auto
  show ?thesis
    unfolding palette_grid_def
  proof
    fix rw assume "rw \<in> set g'"
    with py_set_Some_set [OF g'] have "rw = row' \<or> rw \<in> set g" by auto
    with row'_ok assms(1) show "\<forall>c \<in> set rw. c \<in> set pool" by (auto simp: palette_grid_def)
  qed
qed

lemma grid_get_rect:
  assumes "rect_grid g w h" "0 \<le> x" "x < w" "0 \<le> y" "y < h"
  shows "grid_get g y x = Some (g ! nat y ! nat x)"
proof -
  have y: "py_nth g y = Some (g ! nat y)" using assms by (simp add: py_nth_in_range rect_grid_def)
  have "g ! nat y \<in> set g" using assms by (simp add: rect_grid_def)
  hence "length (g ! nat y) = nat w" using assms(1) by (simp add: rect_grid_def list_all_iff)
  hence "py_nth (g ! nat y) x = Some (g ! nat y ! nat x)" using assms by (simp add: py_nth_in_range)
  with y show ?thesis by (simp add: grid_get_def)
qed

lemma grid_set_rect:
  assumes "rect_grid g w h" "0 \<le> x" "x < w" "0 \<le> y" "y < h"
  shows "grid_set g y x v = Some (g[nat y := (g ! nat y)[nat x := v]])"
proof -
  have y: "py_nth g y = Some (g ! nat y)" using assms by (simp add: py_nth_in_range rect_grid_def)
  have "g ! nat y \<in> set g" using assms by (simp add: rect_grid_def)
  hence "length (g ! nat y) = nat w" using assms(1) by (simp add: rect_grid_def list_all_iff)
  hence "py_set (g ! nat y) x v = Some ((g ! nat y)[nat x := v])"
    using assms by (simp add: py_set_def py_index_def)
  moreover have "py_set g y r = Some (g[nat y := r])" for r
    using assms by (simp add: py_set_def py_index_def rect_grid_def)
  ultimately show ?thesis using y by (simp add: grid_set_def)
qed

lemma rect_grid_update:
  assumes "rect_grid g w h"
  shows "rect_grid (g[i := (g ! i)[j := v]]) w h"
proof (cases "i < length g")
  case True
  hence "g ! i \<in> set g" by simp
  with assms have "length ((g ! i)[j := v]) = nat w" by (simp add: rect_grid_def list_all_iff)
  with assms show ?thesis
    by (auto simp: rect_grid_def list_all_iff dest!: subsetD [OF set_update_subset_insert])
next
  case False
  hence "length g \<le> i" by linarith
  hence "g[i := (g ! i)[j := v]] = g" by (rule list_update_beyond)
  with assms show ?thesis by simp
qed

lemma allM_total: "(\<And>x. x \<in> set xs \<Longrightarrow> p x \<noteq> None) \<Longrightarrow> \<exists>b. allM p xs = Some b"
  by (induction xs) (auto split: option.splits)

lemma range2_set: "(r, c) \<in> set (range2 h w) \<longleftrightarrow> 0 \<le> r \<and> r < h \<and> 0 \<le> c \<and> c < w"
  by (auto simp: range2_def py_range_def image_iff)

section \<open>ga85: the two click operations\<close>

lemma cycle_color_palette:
  assumes "color \<in> set (py_prefix (ldef_num_colors ld) COLOR_CYCLE)"
  shows "cycle_color ld color =
         (let pool = py_prefix (ldef_num_colors ld) COLOR_CYCLE;
              ci = (case index_of pool color of Some i \<Rightarrow> i | None \<Rightarrow> 0)
          in py_nth pool (int ((ci + 1) mod length pool)))"
proof -
  from assms obtain i where "index_of (py_prefix (ldef_num_colors ld) COLOR_CYCLE) color = Some i"
    using index_of_Some_iff by metis
  then show ?thesis by (simp add: cycle_color_def Let_def)
qed

lemma activate_target_eq_click_cell:
  assumes "palette_grid (py_prefix (ldef_num_colors ld) COLOR_CYCLE) g"
  shows "activate_target ld g t =
         click_cell (ldef_pw ld) (ldef_ph ld) (py_prefix (ldef_num_colors ld) COLOR_CYCLE) g t"
proof (cases t)
  case (Pair tx ty)
  let ?pool = "py_prefix (ldef_num_colors ld) COLOR_CYCLE"
  show ?thesis
  proof (cases "grid_get g ty tx")
    case None
    then show ?thesis by (simp add: Pair activate_target_def click_cell_def)
  next
    case (Some cur)
    with assms have mem: "cur \<in> set ?pool" by (rule grid_get_palette)
    then have ne: "?pool \<noteq> []" by auto
    show ?thesis
      using Some ne cycle_color_palette [OF mem]
      by (simp add: Pair activate_target_def click_cell_def Let_def)
  qed
qed

lemma click_cell_palette:
  assumes "palette_grid pool g" and "click_cell pw ph pool g t = Some g'"
  shows "palette_grid pool g'"
proof (cases t)
  case (Pair tx ty)
  show ?thesis
  proof (cases "0 \<le> tx \<and> tx < pw \<and> 0 \<le> ty \<and> ty < ph")
    case False
    with assms Pair show ?thesis by (auto simp: click_cell_def)
  next
    case True
    with assms(2) Pair obtain v where
      v: "\<exists>k. py_nth pool k = Some v" and s: "grid_set g ty tx v = Some g'"
      by (auto simp: click_cell_def Let_def split: bind_splits if_splits)
    from v have "v \<in> set pool" by (auto dest: py_nth_Some_mem)
    from assms(1) this s show ?thesis by (rule grid_set_palette)
  qed
qed

lemma foldM_activate_eq_click:
  assumes "palette_grid (py_prefix (ldef_num_colors ld) COLOR_CYCLE) g"
  shows "foldM (activate_target ld) ts g =
         foldM (click_cell (ldef_pw ld) (ldef_ph ld) (py_prefix (ldef_num_colors ld) COLOR_CYCLE)) ts g"
  using assms
proof (induction ts arbitrary: g)
  case Nil
  then show ?case by simp
next
  case (Cons t ts)
  let ?pool = "py_prefix (ldef_num_colors ld) COLOR_CYCLE"
  have step: "activate_target ld g t = click_cell (ldef_pw ld) (ldef_ph ld) ?pool g t"
    using Cons.prems by (rule activate_target_eq_click_cell)
  show ?case
  proof (cases "click_cell (ldef_pw ld) (ldef_ph ld) ?pool g t")
    case None
    with step show ?thesis by simp
  next
    case (Some g')
    with Cons.prems have "palette_grid ?pool g'" by (rule click_cell_palette)
    then show ?thesis using step Some Cons.IH by simp
  qed
qed

text \<open>
  C7 (as amended). For a click inside the board on a grid whose labels all belong to the
  level's palette, the in-game click \<open>_activate_cell\<close> and the generator's
  \<open>_apply_click\<close> compute the same grid (and raise on the same inputs); a click outside
  the board leaves the game's grid unchanged.
\<close>

theorem activate_cell_matches_apply_click:
  assumes "palette_grid (py_prefix (ldef_num_colors (ga_ldef s)) COLOR_CYCLE) (ga_grid s)"
  shows "(0 \<le> gx \<and> gx < ldef_pw (ga_ldef s) \<and> 0 \<le> gy \<and> gy < ldef_ph (ga_ldef s) \<longrightarrow>
            map_option ga_grid (activate_cell s gx gy) =
            apply_click (ga_grid s) gy gx (ldef_pw (ga_ldef s)) (ldef_ph (ga_ldef s))
              (py_prefix (ldef_num_colors (ga_ldef s)) COLOR_CYCLE))
       \<and> (\<not> (0 \<le> gx \<and> gx < ldef_pw (ga_ldef s) \<and> 0 \<le> gy \<and> gy < ldef_ph (ga_ldef s)) \<longrightarrow>
            activate_cell s gx gy = Some s)"
proof -
  have "foldM (activate_target (ga_ldef s)) (click_targets gx gy) (ga_grid s) =
        apply_click (ga_grid s) gy gx (ldef_pw (ga_ldef s)) (ldef_ph (ga_ldef s))
          (py_prefix (ldef_num_colors (ga_ldef s)) COLOR_CYCLE)"
    unfolding apply_click_def using assms by (rule foldM_activate_eq_click)
  then show ?thesis
    by (auto simp: activate_cell_def Let_def split: option.splits)
qed

theorem activate_cell_matches_apply_click_witness:
  "palette_grid (py_prefix 2 COLOR_CYCLE) [[2, 2], [2, 2]]
   \<and> map_option ga_grid (activate_cell \<lparr>ga_grid = [[2, 2], [2, 2]], ga_history = [],
         ga_ldef = \<lparr>ldef_pw = 2, ldef_ph = 2, ldef_num_colors = 2\<rparr>,
         ga_cursor_gx = 0, ga_cursor_gy = 0, ga_target_color = 2\<rparr> 0 0)
       = apply_click [[2, 2], [2, 2]] 0 0 2 2 (py_prefix 2 COLOR_CYCLE)
   \<and> apply_click [[2, 2], [2, 2]] 0 0 2 2 (py_prefix 2 COLOR_CYCLE) = Some [[8, 8], [8, 2]]"
proof -
  let ?s = "\<lparr>ga_grid = [[2, 2], [2, 2]], ga_history = [],
         ga_ldef = \<lparr>ldef_pw = 2, ldef_ph = 2, ldef_num_colors = 2\<rparr>,
         ga_cursor_gx = 0, ga_cursor_gy = 0, ga_target_color = 2\<rparr>"
  have p: "palette_grid (py_prefix (ldef_num_colors (ga_ldef ?s)) COLOR_CYCLE) (ga_grid ?s)"
    by code_simp
  have v: "apply_click [[2, 2], [2, 2]] 0 0 2 2 (py_prefix 2 COLOR_CYCLE) = Some [[8, 8], [8, 2]]"
    by code_simp
  from activate_cell_matches_apply_click [OF p, of 0 0] p v show ?thesis by simp
qed

text \<open>
  C7 as stated fails twice. On a label outside the palette \<open>_apply_click\<close> writes the
  second palette colour and \<open>_cycle_color\<close> the first; and a click one column left of the
  board is ignored by \<open>_activate_cell\<close> while \<open>_apply_click\<close> still advances the
  neighbour inside the board.
\<close>

theorem activate_cell_differs_counterexample:
  "map_option ga_grid (activate_cell \<lparr>ga_grid = [[0]], ga_history = [],
        ga_ldef = \<lparr>ldef_pw = 1, ldef_ph = 1, ldef_num_colors = 2\<rparr>,
        ga_cursor_gx = 0, ga_cursor_gy = 0, ga_target_color = 2\<rparr> 0 0) = Some [[8]]
   \<and> apply_click [[0]] 0 0 1 1 (py_prefix 2 COLOR_CYCLE) = Some [[2]]
   \<and> map_option ga_grid (activate_cell \<lparr>ga_grid = [[8]], ga_history = [],
        ga_ldef = \<lparr>ldef_pw = 1, ldef_ph = 1, ldef_num_colors = 2\<rparr>,
        ga_cursor_gx = 0, ga_cursor_gy = 0, ga_target_color = 2\<rparr> (- 1) 0) = Some [[8]]
   \<and> apply_click [[8]] 0 (- 1) 1 1 (py_prefix 2 COLOR_CYCLE) = Some [[2]]"
  by code_simp

section \<open>pm07: undo restores the state before a step\<close>

lemma save_state_history:
  "pm_history (save_state s) = pm_history s @
     [(pm_grid s, pm_cursor_x s, pm_cursor_y s, pm_phase s, pm_last_dx s, pm_last_dy s,
       pm_prev_color s, pm_extra s)]"
  by (simp add: save_state_def)

lemma collect_gem_history: "collect_gem s x y = Some s' \<Longrightarrow> pm_history s' = pm_history s"
  by (auto simp: collect_gem_def)

lemma slide_history:
  "slide w h dx dy s cx cy = Some (s', x, y) \<Longrightarrow> pm_history s' = pm_history s"
proof (induction w h dx dy s cx cy rule: slide.induct)
  case (1 w h dx dy s cx cy)
  show ?case
  proof (cases "in_bounds (cx + dx) (cy + dy) w h")
    case False
    with "1.prems" show ?thesis by (simp add: slide.simps [of w h dx dy s cx cy])
  next
    case True
    then obtain cell where c: "grid_get (pm_grid s) (cy + dy) (cx + dx) = Some cell"
      using "1.prems" by (cases "grid_get (pm_grid s) (cy + dy) (cx + dx)") (auto simp: slide.simps [of w h dx dy s cx cy])
    show ?thesis
    proof (cases "cell = C_DARK_GRAY \<or> (dx = 0 \<and> dy = 0)")
      case True
      with "1.prems" \<open>in_bounds (cx + dx) (cy + dy) w h\<close> c show ?thesis
        by (auto simp: slide.simps [of w h dx dy s cx cy] split: if_splits)
    next
      case False
      then obtain s1 where s1: "(if cell = C_GREEN then collect_gem s (cx + dx) (cy + dy) else Some s) = Some s1"
        and rec: "slide w h dx dy s1 (cx + dx) (cy + dy) = Some (s', x, y)"
        using "1.prems" \<open>in_bounds (cx + dx) (cy + dy) w h\<close> c
        by (auto simp: slide.simps [of w h dx dy s cx cy] split: if_splits option.splits)
      have h1: "pm_history s1 = pm_history s"
        using s1 by (auto split: if_splits dest: collect_gem_history)
      have "pm_history s' = pm_history s1"
        using "1.IH" [OF _ c _ _ s1 rec] \<open>in_bounds (cx + dx) (cy + dy) w h\<close> False by auto
      with h1 show ?thesis by simp
    qed
  qed
qed

lemma step_level_1_history:
  "get_dir a \<noteq> (0, 0) \<Longrightarrow> step_level_1 s a = Some (s', won) \<Longrightarrow> pm_history s' = pm_history (save_state s)"
  by (auto simp: step_level_1_def Let_def split: prod.splits if_splits bind_splits)

lemma step_level_2_history:
  "get_dir a \<noteq> (0, 0) \<Longrightarrow> step_level_2 s a = Some (s', won) \<Longrightarrow> pm_history s' = pm_history (save_state s)"
  by (auto simp: step_level_2_def Let_def split: prod.splits if_splits bind_splits)

lemma step_level_3_history:
  "get_dir a \<noteq> (0, 0) \<Longrightarrow> step_level_3 s a = Some (s', won) \<Longrightarrow> pm_history s' = pm_history (save_state s)"
  by (auto simp: step_level_3_def Let_def split: prod.splits if_splits option.splits dest: slide_history)

lemma step_level_4_history:
  "get_dir a \<noteq> (0, 0) \<Longrightarrow> step_level_4 s a = Some (s', won) \<Longrightarrow> pm_history s' = pm_history (save_state s)"
  by (auto simp: step_level_4_def Let_def split: prod.splits if_splits option.splits bind_splits)

lemma step_level_5_history:
  "get_dir a \<noteq> (0, 0) \<Longrightarrow> step_level_5 s a = Some (s', won) \<Longrightarrow> pm_history s' = pm_history (save_state s)"
  by (auto simp: step_level_5_def Let_def split: prod.splits if_splits option.splits bind_splits)

lemma step_level_6_history:
  "get_dir a \<noteq> (0, 0) \<Longrightarrow> step_level_6 s a = Some (s', won) \<Longrightarrow> pm_history s' = pm_history (save_state s)"
  by (auto simp: step_level_6_def Let_def split: prod.splits if_splits option.splits bind_splits)

lemma step_level_7_history:
  "get_dir a \<noteq> (0, 0) \<Longrightarrow> step_level_7 s a = Some (s', won) \<Longrightarrow> pm_history s' = pm_history (save_state s)"
  by (auto simp: step_level_7_def Let_def split: prod.splits if_splits option.splits bind_splits)

lemma handler_history:
  assumes "get_dir a \<noteq> (0, 0)"
    and "py_nth handlers (int (pm_level_index s)) = Some handler"
    and "handler s a = Some (s', won)"
  shows "pm_history s' = pm_history (save_state s)"
proof -
  from assms(2) have "handler \<in> set handlers" by (rule py_nth_Some_mem)
  then consider "handler = step_level_1" | "handler = step_level_2" | "handler = step_level_3"
    | "handler = step_level_4" | "handler = step_level_5" | "handler = step_level_6"
    | "handler = step_level_7"
    by (auto simp: handlers_def)
  then show ?thesis
    using assms(1,3)
    by cases (auto dest: step_level_1_history step_level_2_history step_level_3_history
        step_level_4_history step_level_5_history step_level_6_history step_level_7_history)
qed

lemma undo_save_state:
  assumes "pm_history s' = pm_history (save_state s)"
  shows "pm_grid (undo s') = pm_grid s \<and> pm_cursor_x (undo s') = pm_cursor_x s
       \<and> pm_cursor_y (undo s') = pm_cursor_y s \<and> pm_phase (undo s') = pm_phase s
       \<and> pm_last_dx (undo s') = pm_last_dx s \<and> pm_last_dy (undo s') = pm_last_dy s
       \<and> pm_prev_color (undo s') = pm_prev_color s \<and> pm_extra (undo s') = pm_extra s
       \<and> pm_history (undo s') = pm_history s"
  using assms by (simp add: undo_def save_state_history)

text \<open>
  C10. In every level, after a directional action that did not complete the level, the
  undo action \<open>ACTION7\<close> gives back the grid, the cursor, the phase, the last direction,
  the previous colour and the extra dictionary of the state before that action (and the
  history as it was): each handler pushes its snapshot before it changes anything.
\<close>

theorem undo_restores_state_before_step:
  assumes "a \<in> {ACTION1, ACTION2, ACTION3, ACTION4}"
    and "pm_step s a = Some (s', False)"
  shows "\<exists>s''. pm_step s' ACTION7 = Some (s'', False)
       \<and> pm_grid s'' = pm_grid s \<and> pm_cursor_x s'' = pm_cursor_x s
       \<and> pm_cursor_y s'' = pm_cursor_y s \<and> pm_phase s'' = pm_phase s
       \<and> pm_last_dx s'' = pm_last_dx s \<and> pm_last_dy s'' = pm_last_dy s
       \<and> pm_prev_color s'' = pm_prev_color s \<and> pm_extra s'' = pm_extra s
       \<and> pm_history s'' = pm_history s"
proof -
  from assms(1) have dir: "get_dir a \<noteq> (0, 0)" and na: "a \<noteq> ACTION7" by auto
  from assms(2) na obtain handler where
    h: "py_nth handlers (int (pm_level_index s)) = Some handler" and r: "handler s a = Some (s', False)"
    by (auto simp: pm_step_def split: option.splits)
  have "pm_history s' = pm_history (save_state s)" using dir h r by (rule handler_history)
  from undo_save_state [OF this] show ?thesis by (simp add: pm_step_def)
qed

lemma walk_example_step:
  "pm_step walk_example ACTION4 = Some ((save_state walk_example)\<lparr>pm_cursor_x := 1, pm_cursor_y := 0\<rparr>, False)"
  by (simp add: pm_step_def handlers_def py_nth_def py_index_def step_level_4_def
      walk_example_def save_state_def empty_extra_def in_bounds_def grid_get_def
      gems_left_or_def C_YELLOW_def)

theorem undo_restores_state_before_step_witness:
  "ACTION4 \<in> {ACTION1, ACTION2, ACTION3, ACTION4}
   \<and> (\<exists>s'. pm_step walk_example ACTION4 = Some (s', False) \<and> pm_cursor_x s' = 1
        \<and> (\<exists>s''. pm_step s' ACTION7 = Some (s'', False) \<and> pm_cursor_x s'' = 0 \<and> pm_history s'' = []))"
proof -
  have a: "ACTION4 \<in> {ACTION1, ACTION2, ACTION3, ACTION4}" by simp
  from undo_restores_state_before_step [OF a walk_example_step] a walk_example_step
  show ?thesis by (auto simp: walk_example_def)
qed

section \<open>pm07: the mirror level\<close>

lemma step_level_6_result:
  assumes dir: "get_dir a = (dx, dy)" "(dx, dy) \<noteq> (0, 0)"
    and size: "pm_grid_size s = (w, h)"
    and walls: "x_wall_positions (pm_extra s) = Some walls"
    and mir: "x_mirror_x (pm_extra s) = Some mx" "x_mirror_y (pm_extra s) = Some my"
    and tgt: "x_target_x (pm_extra s) = Some tx" "x_target_y (pm_extra s) = Some ty"
  shows "\<exists>s' won. step_level_6 s a = Some (s', won)
       \<and> (pm_cursor_x s', pm_cursor_y s') =
           (if in_bounds (pm_cursor_x s + dx) (pm_cursor_y s + dy) w h
               \<and> (pm_cursor_x s + dx, pm_cursor_y s + dy) \<notin> walls
            then (pm_cursor_x s + dx, pm_cursor_y s + dy) else (pm_cursor_x s, pm_cursor_y s))
       \<and> (x_mirror_x (pm_extra s'), x_mirror_y (pm_extra s')) =
           (if in_bounds (mx - dx) (my - dy) w h \<and> (mx - dx, my - dy) \<notin> walls
            then (Some (mx - dx), Some (my - dy)) else (Some mx, Some my))
       \<and> won = (pm_cursor_x s' = tx \<and> pm_cursor_y s' = ty
                \<and> x_mirror_x (pm_extra s') = Some tx \<and> x_mirror_y (pm_extra s') = Some ty)"
  using assms
  by (auto simp: step_level_6_def Let_def save_state_def)


lemma mirror_succ_eq:
  "mirror_succ w h walls (cx, cy, mx, my) (dx, dy) =
     (if in_bounds (cx + dx) (cy + dy) w h \<and> (cx + dx, cy + dy) \<notin> walls
      then (cx + dx, cy + dy, if in_bounds (mx - dx) (my - dy) w h \<and> (mx - dx, my - dy) \<notin> walls
                              then (mx - dx, my - dy) else (mx, my))
      else (cx, cy, if in_bounds (mx - dx) (my - dy) w h \<and> (mx - dx, my - dy) \<notin> walls
                    then (mx - dx, my - dy) else (mx, my)))"
  by (simp add: mirror_succ_def in_bounds_def Let_def)

lemma mirror_scan_full:
  assumes "(tx, ty, tx, ty) \<notin> visited"
  shows "(case mirror_scan w h walls tx ty st ds visited queue of
            Return b \<Rightarrow> b \<and> (tx, ty, tx, ty) \<in> mirror_succ w h walls st ` set ds
          | Next (v', q') \<Rightarrow>
              v' = visited \<union> mirror_succ w h walls st ` set ds
              \<and> (tx, ty, tx, ty) \<notin> v'
              \<and> set q' = set queue \<union> (v' - visited))"
  using assms
proof (induction ds arbitrary: visited queue)
  case Nil
  then show ?case by simp
next
  case (Cons d ds)
  let ?ns = "mirror_succ w h walls st d"
  show ?case
  proof (cases "?ns \<in> visited")
    case True
    have eq: "mirror_scan w h walls tx ty st (d # ds) visited queue
              = mirror_scan w h walls tx ty st ds visited queue"
      using True by simp
    from Cons.IH [OF Cons.prems, of queue] True show ?thesis
      unfolding eq by (auto split: loop.splits)
  next
    case False
    show ?thesis
    proof (cases "?ns = (tx, ty, tx, ty)")
      case True
      with False show ?thesis by (simp add: Let_def)
    next
      case ns: False
      have eq: "mirror_scan w h walls tx ty st (d # ds) visited queue
                = mirror_scan w h walls tx ty st ds (insert ?ns visited) (queue @ [?ns])"
        using False ns by (simp add: Let_def)
      have "(tx, ty, tx, ty) \<notin> insert ?ns visited" using ns Cons.prems by auto
      from Cons.IH [OF this, of "queue @ [?ns]"] False show ?thesis
        unfolding eq by (auto split: loop.splits)
    qed
  qed
qed

lemma bfs_mirror_loop_correct:
  assumes "set queue \<subseteq> visited"
    and "visited \<subseteq> (mirror_moves w h walls)\<^sup>* `` {s0}"
    and "(tx, ty, tx, ty) \<notin> visited"
    and "\<And>x d. x \<in> visited - set queue \<Longrightarrow> d \<in> set directions \<Longrightarrow> mirror_succ w h walls x d \<in> visited"
    and "s0 \<in> visited"
  shows "bfs_mirror_loop w h walls tx ty visited queue
           \<longleftrightarrow> (s0, (tx, ty, tx, ty)) \<in> (mirror_moves w h walls)\<^sup>*"
  using assms
proof (induction w h walls tx ty visited queue rule: bfs_mirror_loop.induct)
  case (1 w h walls tx ty visited)
  have closed: "y \<in> visited" if "(s0, y) \<in> (mirror_moves w h walls)\<^sup>*" for y
    using that
  proof (induction rule: rtrancl_induct)
    case base
    then show ?case using 1(5) .
  next
    case (step y z)
    from step(2) obtain d where "d \<in> set directions" "z = mirror_succ w h walls y d"
      by (auto simp: mirror_moves_def)
    with 1(4) [of y d] step(3) show ?case by simp
  qed
  with 1(3) show ?case by auto
next
  case (2 w h walls tx ty visited st queue)
  let ?T = "(tx, ty, tx, ty)"
  let ?R = "mirror_moves w h walls"
  have st_reach: "(s0, st) \<in> ?R\<^sup>*" using 2(2,3) by auto
  have succ_reach: "(s0, mirror_succ w h walls st d) \<in> ?R\<^sup>*" if "d \<in> set directions" for d
  proof -
    have "(st, mirror_succ w h walls st d) \<in> ?R" using that by (auto simp: mirror_moves_def)
    with st_reach show ?thesis by (rule rtrancl_into_rtrancl)
  qed
  note full = mirror_scan_full [OF 2(4), of w h walls st directions queue]
  show ?case
  proof (cases "mirror_scan w h walls tx ty st directions visited queue")
    case (Return b)
    with full have b: "b" and T: "?T \<in> mirror_succ w h walls st ` set directions" by auto
    from T succ_reach have "(s0, ?T) \<in> ?R\<^sup>*" by auto
    with Return b show ?thesis by simp
  next
    case (Next vq)
    obtain v' q' where vq: "vq = (v', q')" by (cases vq)
    from full Next vq have v': "v' = visited \<union> mirror_succ w h walls st ` set directions"
      and T: "?T \<notin> v'" and q': "set q' = set queue \<union> (v' - visited)" by auto
    have a: "set q' \<subseteq> v'" using q' v' 2(2) by auto
    have b: "v' \<subseteq> ?R\<^sup>* `` {s0}" using v' 2(3) succ_reach by auto
    have d: "mirror_succ w h walls x d \<in> v'" if "x \<in> v' - set q'" "d \<in> set directions" for x d
    proof (cases "x = st")
      case True
      with that(2) v' show ?thesis by auto
    next
      case False
      from that(1) q' have "x \<in> visited" "x \<notin> set queue" by auto
      with False have "x \<in> visited - set (st # queue)" by simp
      from 2(5) [OF this that(2)] v' show ?thesis by simp
    qed
    have e: "s0 \<in> v'" using 2(6) v' by simp
    have "bfs_mirror_loop w h walls tx ty v' q' \<longleftrightarrow> (s0, ?T) \<in> ?R\<^sup>*"
      using Next vq a b T d e by (intro 2(1)) auto
    with Next vq show ?thesis by simp
  qed
qed

lemma bfs_mirror_solvable_correct:
  "bfs_mirror_solvable w h walls cx cy mx my tx ty
     \<longleftrightarrow> ((cx, cy, mx, my), (tx, ty, tx, ty)) \<in> (mirror_moves w h walls)\<^sup>*"
proof (cases "cx = tx \<and> cy = ty \<and> mx = tx \<and> my = ty")
  case True
  then show ?thesis by (simp add: bfs_mirror_solvable_def)
next
  case False
  have "bfs_mirror_loop w h walls tx ty {(cx, cy, mx, my)} [(cx, cy, mx, my)]
          \<longleftrightarrow> ((cx, cy, mx, my), (tx, ty, tx, ty)) \<in> (mirror_moves w h walls)\<^sup>*"
    using False by (intro bfs_mirror_loop_correct) auto
  with False show ?thesis by (simp add: bfs_mirror_solvable_def)
qed

lemma get_dir_directions: "get_dir a \<noteq> (0, 0) \<Longrightarrow> get_dir a \<in> set directions"
  by (cases a) (auto simp: directions_def)

lemma directions_get_dir: "d \<in> set directions \<Longrightarrow> \<exists>a. get_dir a = d \<and> d \<noteq> (0, 0)"
proof -
  assume "d \<in> set directions"
  then consider "d = (0, - 1)" | "d = (0, 1)" | "d = (- 1, 0)" | "d = (1, 0)"
    by (auto simp: directions_def)
  then show ?thesis
  proof cases
    case 1 then show ?thesis by (intro exI [of _ ACTION1]) simp
  next
    case 2 then show ?thesis by (intro exI [of _ ACTION2]) simp
  next
    case 3 then show ?thesis by (intro exI [of _ ACTION3]) simp
  next
    case 4 then show ?thesis by (intro exI [of _ ACTION4]) simp
  qed
qed

lemma step_level_6_joint:
  assumes "step_level_6 s a = Some (s', won)" and "get_dir a \<noteq> (0, 0)"
    and "pm_grid_size s = (w, h)" and "x_wall_positions (pm_extra s) = Some walls"
    and "joint_of s = Some j"
  shows "joint_of s' = Some (mirror_succ w h walls j (get_dir a))"
proof -
  obtain dx dy where d: "get_dir a = (dx, dy)" by (cases "get_dir a")
  from assms(5) obtain mx my where m: "x_mirror_x (pm_extra s) = Some mx"
    "x_mirror_y (pm_extra s) = Some my" and j: "j = (pm_cursor_x s, pm_cursor_y s, mx, my)"
    by (auto simp: joint_of_def split: bind_splits)
  have nz: "(dx, dy) \<noteq> (0, 0)" using assms(2) d by simp
  have "x_target_x (pm_extra s) \<noteq> None \<and> x_target_y (pm_extra s) \<noteq> None"
  proof (rule ccontr)
    assume "\<not> (x_target_x (pm_extra s) \<noteq> None \<and> x_target_y (pm_extra s) \<noteq> None)"
    hence "step_level_6 s a = None"
      using d nz assms(3,4) m by (auto simp: step_level_6_def Let_def save_state_def)
    with assms(1) show False by simp
  qed
  then obtain tx ty where t: "x_target_x (pm_extra s) = Some tx"
    "x_target_y (pm_extra s) = Some ty" by auto
  from step_level_6_result [OF d nz assms(3,4) m t] assms(1)
  show ?thesis
    unfolding d j by (auto simp: joint_of_def mirror_succ_eq split: if_splits)
qed

lemma mirror_play_eq: "mirror_play w h walls = mirror_moves w h walls"
proof (intro set_eqI iffI; clarify)
  fix j j' assume "(j, j') \<in> mirror_play w h walls"
  then obtain s a s' won where s: "pm_grid_size s = (w, h)" "x_wall_positions (pm_extra s) = Some walls"
    "joint_of s = Some j" "get_dir a \<noteq> (0, 0)" "step_level_6 s a = Some (s', won)"
    "joint_of s' = Some j'"
    by (auto simp: mirror_play_def)
  from step_level_6_joint [OF s(5,4,1,2,3)] s(6) have "j' = mirror_succ w h walls j (get_dir a)"
    by simp
  with get_dir_directions [OF s(4)] show "(j, j') \<in> mirror_moves w h walls"
    by (auto simp: mirror_moves_def)
next
  fix j j' assume "(j, j') \<in> mirror_moves w h walls"
  then obtain d where d: "d \<in> set directions" and j': "j' = mirror_succ w h walls j d"
    by (auto simp: mirror_moves_def)
  from directions_get_dir [OF d] obtain a where a: "get_dir a = d" "d \<noteq> (0, 0)" by blast
  obtain cx cy mx my where j: "j = (cx, cy, mx, my)" by (cases j) auto
  obtain dx dy where dd: "d = (dx, dy)" by (cases d)
  define s where "s = \<lparr>pm_grid = [], pm_cursor_x = cx, pm_cursor_y = cy,
     pm_history = [], pm_phase = 0, pm_prev_color = 0, pm_last_dx = 0, pm_last_dy = 0,
     pm_extra = empty_extra\<lparr>x_wall_positions := Some walls,
       x_mirror_x := Some mx, x_mirror_y := Some my, x_target_x := Some 0, x_target_y := Some 0\<rparr>,
     pm_level_index = 5, pm_grid_size = (w, h)\<rparr>"
  have f: "pm_grid_size s = (w, h)" "x_wall_positions (pm_extra s) = Some walls"
    "x_mirror_x (pm_extra s) = Some mx" "x_mirror_y (pm_extra s) = Some my"
    "x_target_x (pm_extra s) = Some 0" "x_target_y (pm_extra s) = Some 0"
    "pm_cursor_x s = cx" "pm_cursor_y s = cy"
    by (simp_all add: s_def empty_extra_def)
  have js: "joint_of s = Some j" by (simp add: joint_of_def f j)
  have da: "get_dir a = (dx, dy)" and nz: "(dx, dy) \<noteq> (0, 0)" using a dd by simp_all
  from step_level_6_result [OF da nz f(1,2,3,4,5,6)] obtain s' won where
    st: "step_level_6 s a = Some (s', won)" by blast
  have "get_dir a \<noteq> (0, 0)" using a by simp
  from step_level_6_joint [OF st this f(1,2) js] have "joint_of s' = Some j'"
    by (simp add: j' a)
  with f js st \<open>get_dir a \<noteq> (0, 0)\<close> show "(j, j') \<in> mirror_play w h walls"
    unfolding mirror_play_def by blast
qed

text \<open>
  C2. In the mirror level a directional action \<open>(dx, dy)\<close> moves the main block to
  \<open>(x + dx, y + dy)\<close> exactly when that cell is on the board and not a wall, and the
  mirror block to \<open>(mx - dx, my - dy)\<close> exactly when that cell is on the board and not a
  wall; each test is made on its own, so a pinned block does not hold the other one back.
  The joint position after the step is the successor \<open>_bfs_mirror_solvable\<close> computes for
  that direction, which is one of its four \<open>directions\<close>, and the search's loop body marks
  and enqueues exactly that state. The search as a whole expands by this rule and by nothing
  else: from every start it returns true exactly when the joint position with both blocks on
  the target can be reached by playing directional actions of \<open>_step_level_6\<close>.
\<close>

theorem mirror_step_pin_rule:
  assumes dir: "get_dir a = (dx, dy)" "(dx, dy) \<noteq> (0, 0)"
    and size: "pm_grid_size s = (w, h)"
    and walls: "x_wall_positions (pm_extra s) = Some walls"
    and mir: "x_mirror_x (pm_extra s) = Some mx" "x_mirror_y (pm_extra s) = Some my"
    and tgt: "x_target_x (pm_extra s) = Some tx" "x_target_y (pm_extra s) = Some ty"
  shows "\<exists>s' won mx' my'. step_level_6 s a = Some (s', won)
       \<and> x_mirror_x (pm_extra s') = Some mx' \<and> x_mirror_y (pm_extra s') = Some my'
       \<and> (pm_cursor_x s', pm_cursor_y s') =
           (if in_bounds (pm_cursor_x s + dx) (pm_cursor_y s + dy) w h
               \<and> (pm_cursor_x s + dx, pm_cursor_y s + dy) \<notin> walls
            then (pm_cursor_x s + dx, pm_cursor_y s + dy) else (pm_cursor_x s, pm_cursor_y s))
       \<and> (mx', my') =
           (if in_bounds (mx - dx) (my - dy) w h \<and> (mx - dx, my - dy) \<notin> walls
            then (mx - dx, my - dy) else (mx, my))
       \<and> won = ((pm_cursor_x s', pm_cursor_y s', mx', my') = (tx, ty, tx, ty))
       \<and> mirror_succ w h walls (pm_cursor_x s, pm_cursor_y s, mx, my) (dx, dy)
           = (pm_cursor_x s', pm_cursor_y s', mx', my')
       \<and> (\<forall>visited queue.
            mirror_scan w h walls tx ty (pm_cursor_x s, pm_cursor_y s, mx, my) [(dx, dy)] visited queue =
              (if (pm_cursor_x s', pm_cursor_y s', mx', my') \<in> visited then Next (visited, queue)
               else if won then Return True
               else Next (insert (pm_cursor_x s', pm_cursor_y s', mx', my') visited,
                          queue @ [(pm_cursor_x s', pm_cursor_y s', mx', my')])))
       \<and> (dx, dy) \<in> set directions
       \<and> ((pm_cursor_x s, pm_cursor_y s, mx, my), (pm_cursor_x s', pm_cursor_y s', mx', my'))
             \<in> mirror_play w h walls
       \<and> (\<forall>cx cy rx ry.
             bfs_mirror_solvable w h walls cx cy rx ry tx ty
               \<longleftrightarrow> ((cx, cy, rx, ry), (tx, ty, tx, ty)) \<in> (mirror_play w h walls)\<^sup>*)"
proof -
  from step_level_6_result [OF assms] obtain s' won where
    st: "step_level_6 s a = Some (s', won)"
    and main: "(pm_cursor_x s', pm_cursor_y s') =
           (if in_bounds (pm_cursor_x s + dx) (pm_cursor_y s + dy) w h
               \<and> (pm_cursor_x s + dx, pm_cursor_y s + dy) \<notin> walls
            then (pm_cursor_x s + dx, pm_cursor_y s + dy) else (pm_cursor_x s, pm_cursor_y s))"
    and mirror: "(x_mirror_x (pm_extra s'), x_mirror_y (pm_extra s')) =
           (if in_bounds (mx - dx) (my - dy) w h \<and> (mx - dx, my - dy) \<notin> walls
            then (Some (mx - dx), Some (my - dy)) else (Some mx, Some my))"
    and won: "won = (pm_cursor_x s' = tx \<and> pm_cursor_y s' = ty
                \<and> x_mirror_x (pm_extra s') = Some tx \<and> x_mirror_y (pm_extra s') = Some ty)"
    by blast
  obtain mx' my' where m': "(if in_bounds (mx - dx) (my - dy) w h \<and> (mx - dx, my - dy) \<notin> walls
            then (mx - dx, my - dy) else (mx, my)) = (mx', my')"
    by (cases "if in_bounds (mx - dx) (my - dy) w h \<and> (mx - dx, my - dy) \<notin> walls
            then (mx - dx, my - dy) else (mx, my)") blast
  have mx': "x_mirror_x (pm_extra s') = Some mx'" and my': "x_mirror_y (pm_extra s') = Some my'"
    using mirror m' by (auto split: if_splits)
  have succ: "mirror_succ w h walls (pm_cursor_x s, pm_cursor_y s, mx, my) (dx, dy)
           = (pm_cursor_x s', pm_cursor_y s', mx', my')"
    using main m' by (auto simp: mirror_succ_eq split: if_splits)
  have won': "won = ((pm_cursor_x s', pm_cursor_y s', mx', my') = (tx, ty, tx, ty))"
    using won mx' my' by auto
  have scan: "mirror_scan w h walls tx ty (pm_cursor_x s, pm_cursor_y s, mx, my) [(dx, dy)] visited queue =
              (if (pm_cursor_x s', pm_cursor_y s', mx', my') \<in> visited then Next (visited, queue)
               else if won then Return True
               else Next (insert (pm_cursor_x s', pm_cursor_y s', mx', my') visited,
                          queue @ [(pm_cursor_x s', pm_cursor_y s', mx', my')]))" for visited queue
    unfolding won' by (simp add: succ Let_def)
  have dirs: "(dx, dy) \<in> set directions"
    using get_dir_directions [of a] dir by simp
  have play: "((pm_cursor_x s, pm_cursor_y s, mx, my), (pm_cursor_x s', pm_cursor_y s', mx', my'))
             \<in> mirror_play w h walls"
    unfolding mirror_play_eq mirror_moves_def using dirs succ by force
  have bfs: "bfs_mirror_solvable w h walls cx cy rx ry tx ty
               \<longleftrightarrow> ((cx, cy, rx, ry), (tx, ty, tx, ty)) \<in> (mirror_play w h walls)\<^sup>*"
    for cx cy rx ry
    unfolding mirror_play_eq by (rule bfs_mirror_solvable_correct)
  have first: "\<exists>s' won mx' my'. step_level_6 s a = Some (s', won)
       \<and> x_mirror_x (pm_extra s') = Some mx' \<and> x_mirror_y (pm_extra s') = Some my'
       \<and> (pm_cursor_x s', pm_cursor_y s') =
           (if in_bounds (pm_cursor_x s + dx) (pm_cursor_y s + dy) w h
               \<and> (pm_cursor_x s + dx, pm_cursor_y s + dy) \<notin> walls
            then (pm_cursor_x s + dx, pm_cursor_y s + dy) else (pm_cursor_x s, pm_cursor_y s))
       \<and> (mx', my') =
           (if in_bounds (mx - dx) (my - dy) w h \<and> (mx - dx, my - dy) \<notin> walls
            then (mx - dx, my - dy) else (mx, my))
       \<and> won = ((pm_cursor_x s', pm_cursor_y s', mx', my') = (tx, ty, tx, ty))
       \<and> mirror_succ w h walls (pm_cursor_x s, pm_cursor_y s, mx, my) (dx, dy)
           = (pm_cursor_x s', pm_cursor_y s', mx', my')
       \<and> (\<forall>visited queue.
            mirror_scan w h walls tx ty (pm_cursor_x s, pm_cursor_y s, mx, my) [(dx, dy)] visited queue =
              (if (pm_cursor_x s', pm_cursor_y s', mx', my') \<in> visited then Next (visited, queue)
               else if won then Return True
               else Next (insert (pm_cursor_x s', pm_cursor_y s', mx', my') visited,
                          queue @ [(pm_cursor_x s', pm_cursor_y s', mx', my')])))
       \<and> ((pm_cursor_x s, pm_cursor_y s, mx, my), (pm_cursor_x s', pm_cursor_y s', mx', my'))
             \<in> mirror_play w h walls"
    using st mx' my' main m' [symmetric] won' succ scan play by blast
  from first dirs bfs show ?thesis by blast
qed

text \<open>Walls decide the search: a wall between the two blocks of a one-row board makes the
  target unreachable, and without it the blocks meet in one move.\<close>

lemma bfs_mirror_walls_matter:
  "\<not> bfs_mirror_solvable 3 1 {(1, 0)} 0 0 2 0 1 0 \<and> bfs_mirror_solvable 3 1 {} 0 0 2 0 1 0"
  by code_simp

lemma mirror_example_solvable:
  "bfs_mirror_solvable 8 8 {(2, 1), (4, 1), (2, 2), (4, 2), (2, 4), (4, 4), (2, 5), (4, 5)}
     3 0 3 6 3 3"
  by code_simp

text \<open>On puzzle 0 the action \<open>ACTION1\<close> (up) would take the main block off the board: it
  is pinned at \<open>(3, 0)\<close> while the mirror block moves down to \<open>(3, 7)\<close>; and the win is
  reachable by play, as the search says.\<close>

theorem mirror_step_pin_rule_witness:
  "get_dir ACTION1 = (0, - 1) \<and> ((0::int), (- 1::int)) \<noteq> (0, 0)
   \<and> \<not> in_bounds (pm_cursor_x mirror_example + 0) (pm_cursor_y mirror_example + (- 1)) 8 8
   \<and> (\<exists>s' won. step_level_6 mirror_example ACTION1 = Some (s', won)
         \<and> (pm_cursor_x s', pm_cursor_y s') = (3, 0)
         \<and> x_mirror_x (pm_extra s') = Some 3 \<and> x_mirror_y (pm_extra s') = Some 7
         \<and> \<not> won
         \<and> ((3, 0, 3, 6), (3, 0, 3, 7))
               \<in> mirror_play 8 8 {(2, 1), (4, 1), (2, 2), (4, 2), (2, 4), (4, 4), (2, 5), (4, 5)})
   \<and> ((3, 0, 3, 6), (3, 3, 3, 3))
         \<in> (mirror_play 8 8 {(2, 1), (4, 1), (2, 2), (4, 2), (2, 4), (4, 4), (2, 5), (4, 5)})\<^sup>*"
proof -
  let ?walls = "{(2, 1), (4, 1), (2, 2), (4, 2), (2, 4), (4, 4), (2, 5), (4, 5)} :: pos set"
  have d: "get_dir ACTION1 = (0, - 1)" and nz: "((0::int), (- 1::int)) \<noteq> (0, 0)" by simp_all
  have sz: "pm_grid_size mirror_example = (8, 8)"
    and w: "x_wall_positions (pm_extra mirror_example) = Some ?walls"
    and m: "x_mirror_x (pm_extra mirror_example) = Some 3" "x_mirror_y (pm_extra mirror_example) = Some 6"
    and t: "x_target_x (pm_extra mirror_example) = Some 3" "x_target_y (pm_extra mirror_example) = Some 3"
    and c: "pm_cursor_x mirror_example = 3" "pm_cursor_y mirror_example = 0"
    by (simp_all add: mirror_example_def empty_extra_def)
  note rule = mirror_step_pin_rule [OF d nz sz w m t]
  from rule obtain s' won mx' my' where
    st: "step_level_6 mirror_example ACTION1 = Some (s', won)"
    and mm: "x_mirror_x (pm_extra s') = Some mx'" "x_mirror_y (pm_extra s') = Some my'"
    and main: "(pm_cursor_x s', pm_cursor_y s') =
           (if in_bounds (pm_cursor_x mirror_example + 0) (pm_cursor_y mirror_example + - 1) 8 8
               \<and> (pm_cursor_x mirror_example + 0, pm_cursor_y mirror_example + - 1) \<notin> ?walls
            then (pm_cursor_x mirror_example + 0, pm_cursor_y mirror_example + - 1)
            else (pm_cursor_x mirror_example, pm_cursor_y mirror_example))"
    and mir: "(mx', my') =
           (if in_bounds (3 - 0) (6 - - 1) 8 8 \<and> (3 - 0, 6 - - 1) \<notin> ?walls
            then (3 - 0, 6 - - 1) else (3, 6))"
    and won: "won = ((pm_cursor_x s', pm_cursor_y s', mx', my') = (3, 3, 3, 3))"
    and play: "((pm_cursor_x mirror_example, pm_cursor_y mirror_example, 3, 6),
                (pm_cursor_x s', pm_cursor_y s', mx', my')) \<in> mirror_play 8 8 ?walls"
    by blast
  from rule have bfs: "bfs_mirror_solvable 8 8 ?walls 3 0 3 6 3 3
      \<longleftrightarrow> ((3, 0, 3, 6), (3, 3, 3, 3)) \<in> (mirror_play 8 8 ?walls)\<^sup>*"
    by blast
  have main': "(pm_cursor_x s', pm_cursor_y s') = (3, 0)"
    using main by (simp add: c in_bounds_def)
  have mir': "mx' = 3" "my' = 7" using mir by (simp_all add: in_bounds_def)
  have off: "\<not> in_bounds (pm_cursor_x mirror_example + 0) (pm_cursor_y mirror_example + (- 1)) 8 8"
    by (simp add: c in_bounds_def)
  have reach: "((3, 0, 3, 6), (3, 3, 3, 3)) \<in> (mirror_play 8 8 ?walls)\<^sup>*"
    using bfs mirror_example_solvable by simp
  have "\<not> won" using won main' mir' by simp
  moreover have "((3, 0, 3, 6), (3, 0, 3, 7)) \<in> mirror_play 8 8 ?walls"
    using play main' mir' c by simp
  ultimately show ?thesis
    using d nz off st main' mm mir' reach by auto
qed
section \<open>Moves that are not possible\<close>

lemma get_dir_unit:
  "get_dir a = (dx, dy) \<Longrightarrow> (dx, dy) \<in> {(0, 0), (0, - 1), (0, 1), (- 1, 0), (1, 0)}"
  by (cases a) auto

lemma level_4_invalid_move:
  assumes "get_dir a = (dx, dy)" and "(dx, dy) \<noteq> (0, 0)" and "pm_grid_size s = (w, h)"
    and "x_wall_positions (pm_extra s) = Some walls"
    and "\<not> in_bounds (pm_cursor_x s + dx) (pm_cursor_y s + dy) w h
           \<or> (pm_cursor_x s + dx, pm_cursor_y s + dy) \<in> walls"
  shows "step_level_4 s a = Some (save_state s, False)"
  using assms by (auto simp: step_level_4_def save_state_def Let_def)

lemma level_2_offboard_move:
  assumes d: "get_dir a = (dx, dy)" and nz: "(dx, dy) \<noteq> (0, 0)" and gs: "pm_grid_size s = (w, h)"
    and rect: "rect_grid (pm_grid s) w h"
    and cur: "in_bounds (pm_cursor_x s) (pm_cursor_y s) w h"
    and c1: "x_c1 (pm_extra s) = Some c1" and c2: "x_c2 (pm_extra s) = Some c2"
    and off: "\<not> in_bounds (pm_cursor_x s + dx) (pm_cursor_y s + dy) w h"
  shows "\<exists>won. step_level_2 s a =
           Some ((save_state s)\<lparr>pm_grid := (pm_grid s)[nat (pm_cursor_y s) :=
                    (pm_grid s ! nat (pm_cursor_y s))[nat (pm_cursor_x s) :=
                       (if pm_grid s ! nat (pm_cursor_y s) ! nat (pm_cursor_x s) = c1 then c2 else c1)]]\<rparr>,
                 won)"
proof -
  let ?cx = "pm_cursor_x s" and ?cy = "pm_cursor_y s"
  have nx: "max 0 (min (w - 1) (?cx + dx)) = ?cx" and ny: "max 0 (min (h - 1) (?cy + dy)) = ?cy"
    using get_dir_unit [OF d] nz cur off by (auto simp: in_bounds_def)
  let ?v = "if pm_grid s ! nat ?cy ! nat ?cx = c1 then c2 else c1"
  let ?g = "(pm_grid s)[nat ?cy := (pm_grid s ! nat ?cy)[nat ?cx := ?v]]"
  have b: "0 \<le> ?cx" "?cx < w" "0 \<le> ?cy" "?cy < h" using cur by (auto simp: in_bounds_def)
  have get: "grid_get (pm_grid s) ?cy ?cx = Some (pm_grid s ! nat ?cy ! nat ?cx)"
    using rect b by (rule grid_get_rect)
  have set: "grid_set (pm_grid s) ?cy ?cx ?v = Some ?g"
    using rect b by (rule grid_set_rect)
  have rect': "rect_grid ?g w h" using rect by (rule rect_grid_update)
  have first: "grid_get ?g 0 0 = Some (?g ! nat 0 ! nat 0)"
    using rect' b by (intro grid_get_rect) auto
  have "\<exists>won. allM (\<lambda>(r, c). map_option (\<lambda>v. v = ?g ! nat 0 ! nat 0) (grid_get ?g r c)) (range2 h w) = Some won"
  proof (rule allM_total)
    fix x assume xin: "x \<in> set (range2 h w)"
    obtain r c where x: "x = (r, c)" by (cases x)
    with xin have rc: "0 \<le> r" "r < h" "0 \<le> c" "c < w" by (simp_all add: range2_set)
    have "grid_get ?g r c = Some (?g ! nat r ! nat c)" using rect' rc(3,4,1,2) by (rule grid_get_rect)
    thus "(case x of (r, c) \<Rightarrow> map_option (\<lambda>v. v = ?g ! nat 0 ! nat 0) (grid_get ?g r c)) \<noteq> None"
      by (simp add: x)
  qed
  then obtain won where won: "allM (\<lambda>(r, c). map_option (\<lambda>v. v = ?g ! nat 0 ! nat 0) (grid_get ?g r c)) (range2 h w) = Some won" ..
  have "step_level_2 s a = Some ((save_state s)\<lparr>pm_grid := ?g\<rparr>, won)"
    using d nz gs c1 c2 nx ny get set first won
    by (auto simp: step_level_2_def save_state_def Let_def)
  thus ?thesis ..
qed

lemma extend_path_offboard:
  assumes "\<not> (0 \<le> cd_cursor_x t + dx \<and> cd_cursor_x t + dx < cd_grid_w t
              \<and> 0 \<le> cd_cursor_y t + dy \<and> cd_cursor_y t + dy < cd_grid_h t)"
  shows "extend_path t dx dy = Some t"
  using assms by (simp add: extend_path_def Let_def)

lemma extend_path_own_path:
  assumes "map_of (cd_drawn_paths t) (cd_selected_color t) = Some path"
    and "(cd_cursor_x t + dx, cd_cursor_y t + dy) \<in> set path"
    and "\<not> (2 \<le> length path \<and> (cd_cursor_x t + dx, cd_cursor_y t + dy) = path ! (length path - 2))"
  shows "extend_path t dx dy = Some t"
  using assms by (auto simp: extend_path_def Let_def)


lemma extend_path_back_step:
  assumes "0 \<le> cd_cursor_x t + dx \<and> cd_cursor_x t + dx < cd_grid_w t
             \<and> 0 \<le> cd_cursor_y t + dy \<and> cd_cursor_y t + dy < cd_grid_h t"
    and "map_of (cd_drawn_paths t) (cd_selected_color t) = Some path"
    and "2 \<le> length path \<and> (cd_cursor_x t + dx, cd_cursor_y t + dy) = path ! (length path - 2)"
  shows "extend_path t dx dy =
           map_option (\<lambda>s1. s1\<lparr>cd_cursor_x := cd_cursor_x t + dx, cd_cursor_y := cd_cursor_y t + dy\<rparr>)
             (undo_last_cell t (cd_selected_color t))"
  using assms by (auto simp: extend_path_def Let_def)

lemma cd_step_unchanged:
  assumes b: "cd_dir b = Some (ex, ey)"
    and d: "if cd_selected_color t > 0 then extend_path (t\<lparr>cd_step_count := n\<rparr>) ex ey
                 = Some (t\<lparr>cd_step_count := n\<rparr>)
            else move_cursor (t\<lparr>cd_step_count := n\<rparr>) ex ey = t\<lparr>cd_step_count := n\<rparr>"
    and n: "n = cd_step_count t + 1"
  shows "\<exists>t' won. cd_step t b = Some (t', won) \<and> cd_grid t' = cd_grid t
           \<and> cd_cursor_x t' = cd_cursor_x t \<and> cd_cursor_y t' = cd_cursor_y t
           \<and> cd_drawn_paths t' = cd_drawn_paths t
           \<and> cd_selected_color t' = cd_selected_color t
           \<and> cd_step_count t' = cd_step_count t + 1"
proof -
  have "cd_dispatch (t\<lparr>cd_step_count := n\<rparr>) b = Some (t\<lparr>cd_step_count := n\<rparr>)"
    using b d by (auto simp: cd_dispatch_def split: if_splits)
  thus ?thesis
    unfolding n by (auto simp: cd_step_def)
qed

text \<open>
  Three states of play. The first is a gem-collector board (pm07 level 4) as its setup lays
  one out: horizontal and vertical bars of two or three wall cells away from the first row
  and column, four gems, the cursor at the top left. The second is the third cd01 level
  after its first endpoint, in the corner, has been selected. The third is the same level
  after the path has been drawn right, down and left, so that the cell above the cursor is
  the start of the path.
\<close>

definition gem_example :: pm07 where
  "gem_example = \<lparr>pm_grid =
       [[0, 0, 0, 5, 0, 0, 0, 0],
        [0, 1, 1, 0, 0, 0, 1, 0],
        [0, 0, 0, 0, 0, 0, 1, 0],
        [0, 1, 0, 0, 1, 1, 1, 0],
        [0, 1, 0, 0, 0, 0, 0, 0],
        [5, 0, 1, 1, 1, 5, 0, 0],
        [0, 0, 0, 0, 1, 0, 0, 0],
        [0, 0, 0, 0, 0, 0, 0, 5]],
     pm_cursor_x = 0, pm_cursor_y = 0,
     pm_history = [], pm_phase = 0, pm_prev_color = 0, pm_last_dx = 0, pm_last_dy = 0,
     pm_extra = empty_extra\<lparr>x_gems_total := Some 4, x_gems_left := Some 4,
       x_wall_positions := Some {(1, 1), (2, 1), (4, 3), (5, 3), (6, 3), (2, 5), (3, 5),
                                 (6, 1), (6, 2), (1, 3), (1, 4), (4, 5), (4, 6)}\<rparr>,
     pm_level_index = 3, pm_grid_size = (8, 8)\<rparr>"

definition draw_example :: cd01 where
  "draw_example = the (on_set_level 2 \<bind> (\<lambda>s. cd_play s [ACTION5]))"

definition loop_example :: cd01 where
  "loop_example =
     the (on_set_level 2 \<bind> (\<lambda>s. cd_play s [ACTION5, ACTION4, ACTION2, ACTION3]))"

text \<open>
  C8. What the code does on a directional action whose destination is not available. In the
  gem collector (pm07 level 4) a destination off the board or on a wall makes the step a
  silent no-op: the step returns, and the grid, the cursor and the extra state are as before
  (only the undo history has the snapshot more). In cd01 a directional action whose
  destination is off the board, or, while a colour is drawn, on that colour's own path at
  another cell than the one before its last, returns with the grid, the cursor, the drawn
  paths and the selected colour as before; the step itself is counted. The flood walker
  (pm07 level 2) does not follow the rule: see \<open>flood_walker_offboard_counterexample\<close>.
\<close>

theorem invalid_move_effects:
  assumes dir: "get_dir a = (dx, dy)" "(dx, dy) \<noteq> (0, 0)"
    and l4: "pm_level_index s = 3" "pm_grid_size s = (w, h)"
      "x_wall_positions (pm_extra s) = Some walls"
      "\<not> in_bounds (pm_cursor_x s + dx) (pm_cursor_y s + dy) w h
         \<or> (pm_cursor_x s + dx, pm_cursor_y s + dy) \<in> walls"
    and cdir: "cd_dir b = Some (ex, ey)"
    and cd: "\<not> (0 \<le> cd_cursor_x t + ex \<and> cd_cursor_x t + ex < cd_grid_w t
                 \<and> 0 \<le> cd_cursor_y t + ey \<and> cd_cursor_y t + ey < cd_grid_h t)
             \<or> (cd_selected_color t > 0
                 \<and> (\<exists>path. map_of (cd_drawn_paths t) (cd_selected_color t) = Some path
                       \<and> (cd_cursor_x t + ex, cd_cursor_y t + ey) \<in> set path
                       \<and> \<not> (2 \<le> length path
                            \<and> (cd_cursor_x t + ex, cd_cursor_y t + ey) = path ! (length path - 2))))"
  shows "pm_step s a = Some (save_state s, False)
       \<and> pm_grid (save_state s) = pm_grid s
       \<and> pm_cursor_x (save_state s) = pm_cursor_x s
       \<and> pm_cursor_y (save_state s) = pm_cursor_y s
       \<and> pm_extra (save_state s) = pm_extra s
       \<and> (\<exists>t' won. cd_step t b = Some (t', won) \<and> cd_grid t' = cd_grid t
             \<and> cd_cursor_x t' = cd_cursor_x t \<and> cd_cursor_y t' = cd_cursor_y t
             \<and> cd_drawn_paths t' = cd_drawn_paths t
             \<and> cd_selected_color t' = cd_selected_color t
             \<and> cd_step_count t' = cd_step_count t + 1)
       \<and> (if cd_selected_color t > 0 then extend_path t ex ey = Some t
          else move_cursor t ex ey = t)"
proof -
  have "a \<noteq> ACTION7" using dir by auto
  moreover have "py_nth handlers (int (pm_level_index s)) = Some step_level_4"
    by (simp add: l4(1) handlers_def py_nth_def py_index_def)
  moreover have "step_level_4 s a = Some (save_state s, False)"
    using dir l4(2,3,4) by (rule level_4_invalid_move)
  ultimately have pm: "pm_step s a = Some (save_state s, False)"
    by (simp add: pm_step_def)
  have same: "if cd_selected_color u > 0 then extend_path u ex ey = Some u
              else move_cursor u ex ey = u"
    if u: "cd_cursor_x u = cd_cursor_x t" "cd_cursor_y u = cd_cursor_y t"
      "cd_grid_w u = cd_grid_w t" "cd_grid_h u = cd_grid_h t"
      "cd_selected_color u = cd_selected_color t" "cd_drawn_paths u = cd_drawn_paths t" for u
  proof (cases "0 \<le> cd_cursor_x t + ex \<and> cd_cursor_x t + ex < cd_grid_w t
                 \<and> 0 \<le> cd_cursor_y t + ey \<and> cd_cursor_y t + ey < cd_grid_h t")
    case False
    hence "extend_path u ex ey = Some u" by (intro extend_path_offboard) (simp add: u)
    moreover have "move_cursor u ex ey = u" using False by (auto simp: move_cursor_def u Let_def)
    ultimately show ?thesis by simp
  next
    case True
    with cd obtain path where sel: "cd_selected_color t > 0"
      and p: "map_of (cd_drawn_paths t) (cd_selected_color t) = Some path"
        "(cd_cursor_x t + ex, cd_cursor_y t + ey) \<in> set path"
        "\<not> (2 \<le> length path
            \<and> (cd_cursor_x t + ex, cd_cursor_y t + ey) = path ! (length path - 2))"
      by blast
    have "extend_path u ex ey = Some u"
      using p by (intro extend_path_own_path [of u path]) (simp_all add: u)
    with sel show ?thesis by (simp add: u)
  qed
  have here: "if cd_selected_color t > 0 then extend_path t ex ey = Some t
              else move_cursor t ex ey = t"
    by (rule same) simp_all
  have "if cd_selected_color t > 0
        then extend_path (t\<lparr>cd_step_count := cd_step_count t + 1\<rparr>) ex ey
               = Some (t\<lparr>cd_step_count := cd_step_count t + 1\<rparr>)
        else move_cursor (t\<lparr>cd_step_count := cd_step_count t + 1\<rparr>) ex ey
               = t\<lparr>cd_step_count := cd_step_count t + 1\<rparr>"
    using same [of "t\<lparr>cd_step_count := cd_step_count t + 1\<rparr>"] by simp
  from cd_step_unchanged [OF cdir this refl] pm here show ?thesis
    by (simp add: save_state_def)
qed

text \<open>The rule at work: on the gem board the cursor, one step right of the start, is held by
  the wall below it and, back at the start, by the edge above it; in cd01 the corner cell
  has the edge above it, and the looped path has its own first cell above the cursor.\<close>

theorem invalid_move_effects_witness:
  "(case pm_play gem_example [ACTION4] of
      None \<Rightarrow> False
    | Some s \<Rightarrow> (pm_cursor_x s, pm_cursor_y s) = (1, 0)
        \<and> (pm_cursor_x s + 0, pm_cursor_y s + 1)
             \<in> {(1, 1), (2, 1), (4, 3), (5, 3), (6, 3), (2, 5), (3, 5),
                 (6, 1), (6, 2), (1, 3), (1, 4), (4, 5), (4, 6)}
        \<and> pm_step s ACTION2 = Some (save_state s, False))
   \<and> \<not> in_bounds (pm_cursor_x gem_example + 0) (pm_cursor_y gem_example + (- 1)) 8 8
   \<and> pm_step gem_example ACTION1 = Some (save_state gem_example, False)
   \<and> (cd_cursor_x draw_example, cd_cursor_y draw_example) = (0, 0)
   \<and> cd_selected_color draw_example = 1
   \<and> (\<exists>t' won. cd_step draw_example ACTION1 = Some (t', won)
          \<and> cd_grid t' = cd_grid draw_example \<and> cd_drawn_paths t' = cd_drawn_paths draw_example
          \<and> (cd_cursor_x t', cd_cursor_y t') = (0, 0) \<and> cd_selected_color t' = 1)
   \<and> map_of (cd_drawn_paths loop_example) 1 = Some [(0, 0), (1, 0), (1, 1), (0, 1)]
   \<and> (cd_cursor_x loop_example, cd_cursor_y loop_example) = (0, 1)
   \<and> cd_selected_color loop_example = 1
   \<and> (\<exists>t' won. cd_step loop_example ACTION1 = Some (t', won)
          \<and> cd_grid t' = cd_grid loop_example \<and> cd_drawn_paths t' = cd_drawn_paths loop_example
          \<and> (cd_cursor_x t', cd_cursor_y t') = (0, 1) \<and> cd_selected_color t' = 1)"
proof -
  let ?walls = "{(1, 1), (2, 1), (4, 3), (5, 3), (6, 3), (2, 5), (3, 5),
                 (6, 1), (6, 2), (1, 3), (1, 4), (4, 5), (4, 6)} :: pos set"
  obtain s where s: "pm_play gem_example [ACTION4] = Some s"
    and sc: "pm_cursor_x s = 1" "pm_cursor_y s = 0"
    and sf: "pm_level_index s = 3" "pm_grid_size s = (8, 8)"
      "x_wall_positions (pm_extra s) = Some ?walls"
  proof -
    have "case pm_play gem_example [ACTION4] of None \<Rightarrow> False
          | Some s \<Rightarrow> pm_cursor_x s = 1 \<and> pm_cursor_y s = 0 \<and> pm_level_index s = 3
              \<and> pm_grid_size s = (8, 8) \<and> x_wall_positions (pm_extra s) = Some ?walls"
      by code_simp
    with that show ?thesis by (auto split: option.splits)
  qed
  have g: "pm_level_index gem_example = 3" "pm_grid_size gem_example = (8, 8)"
    "x_wall_positions (pm_extra gem_example) = Some ?walls"
    "pm_cursor_x gem_example = 0" "pm_cursor_y gem_example = 0"
    by (simp_all add: gem_example_def empty_extra_def)
  have d: "cd_cursor_x draw_example = 0" "cd_cursor_y draw_example = 0"
    "cd_selected_color draw_example = 1" "cd_grid_w draw_example = 8" "cd_grid_h draw_example = 8"
    by (code_simp, code_simp, code_simp, code_simp, code_simp)
  have l: "cd_cursor_x loop_example = 0" "cd_cursor_y loop_example = 1"
    "cd_selected_color loop_example = 1" "cd_grid_w loop_example = 8" "cd_grid_h loop_example = 8"
    "map_of (cd_drawn_paths loop_example) 1 = Some [(0, 0), (1, 0), (1, 1), (0, 1)]"
    by (code_simp, code_simp, code_simp, code_simp, code_simp, code_simp)
  have a1: "get_dir ACTION1 = (0, - 1)" "((0::int), (- 1::int)) \<noteq> (0, 0)"
    and a2: "get_dir ACTION2 = (0, 1)" "((0::int), (1::int)) \<noteq> (0, 0)"
    and c1: "cd_dir ACTION1 = Some (0, - 1)"
    by (simp_all add: cd_dir_def)
  have wall: "pm_step s ACTION2 = Some (save_state s, False)
      \<and> (\<exists>t' won. cd_step loop_example ACTION1 = Some (t', won)
          \<and> cd_grid t' = cd_grid loop_example \<and> cd_drawn_paths t' = cd_drawn_paths loop_example
          \<and> (cd_cursor_x t', cd_cursor_y t') = (0, 1) \<and> cd_selected_color t' = 1)"
    using invalid_move_effects [OF a2 sf _ c1, of loop_example] by (auto simp: sc l)
  have edge: "pm_step gem_example ACTION1 = Some (save_state gem_example, False)
      \<and> (\<exists>t' won. cd_step draw_example ACTION1 = Some (t', won)
          \<and> cd_grid t' = cd_grid draw_example \<and> cd_drawn_paths t' = cd_drawn_paths draw_example
          \<and> (cd_cursor_x t', cd_cursor_y t') = (0, 0) \<and> cd_selected_color t' = 1)"
    using invalid_move_effects [OF a1 g(1,2,3) _ c1, of draw_example]
    by (auto simp: g d in_bounds_def)
  show ?thesis
    using wall edge by (simp add: s sc g d l in_bounds_def del: pm_play.simps)
qed

text \<open>Stepping back onto the cell before the last one re-enters the path and is not a
  no-op: it takes the last cell off again. From the corner, one cell drawn to the right
  and then a move to the left.\<close>

lemma extend_path_back_step_example:
  "(case on_set_level 2 \<bind> (\<lambda>s. cd_play s [ACTION5, ACTION4]) of
      None \<Rightarrow> False
    | Some t \<Rightarrow> map_of (cd_drawn_paths t) 1 = Some [(0, 0), (1, 0)]
        \<and> (cd_cursor_x t, cd_cursor_y t) = (1, 0) \<and> grid_get (cd_grid t) 0 1 = Some 1
        \<and> (case cd_step t ACTION3 of
              None \<Rightarrow> False
            | Some (t', won) \<Rightarrow> map_of (cd_drawn_paths t') 1 = Some [(0, 0)]
                \<and> (cd_cursor_x t', cd_cursor_y t') = (0, 0)
                \<and> grid_get (cd_grid t') 0 1 = Some 0))"
  by code_simp

text \<open>
  C8, where the code departs from it. The flood walker clamps the destination to the board
  and then toggles the cell under the cursor without asking whether the cursor moved. On
  the board of level 2 (eight by eight, colours 8 and 7, here with the upper half drawn as
  7, the cursor starting at \<open>(4, 4)\<close>) four moves up bring the cursor to the top row;
  the fifth has its destination \<open>(4, - 1)\<close> off the board, and the step keeps the cursor
  at \<open>(4, 0)\<close> but flips that cell from 8 back to 7.
\<close>

theorem flood_walker_offboard_counterexample:
  "(case pm_play (setup_level_2 8 8 (\<lambda>n. n < 32)) [ACTION1, ACTION1, ACTION1, ACTION1] of
      None \<Rightarrow> False
    | Some s \<Rightarrow> (pm_cursor_x s, pm_cursor_y s) = (4, 0)
        \<and> get_dir ACTION1 = (0, - 1)
        \<and> \<not> in_bounds (pm_cursor_x s + 0) (pm_cursor_y s + (- 1)) 8 8
        \<and> grid_get (pm_grid s) 0 4 = Some 8
        \<and> (case pm_step s ACTION1 of
              None \<Rightarrow> False
            | Some (s', won) \<Rightarrow> \<not> won \<and> (pm_cursor_x s', pm_cursor_y s') = (4, 0)
                \<and> grid_get (pm_grid s') 0 4 = Some 7
                \<and> pm_grid s' \<noteq> pm_grid s))"
  by code_simp

section \<open>cd01: dictionaries, grids and occupants\<close>

lemma map_of_dict_set: "map_of (dict_set d k v) = (map_of d)(k \<mapsto> v)"
  by (induction d) (auto simp: fun_eq_iff)

lemma keys_dict_set_in: "k \<in> fst ` set d \<Longrightarrow> map fst (dict_set d k v) = map fst d"
  by (induction d) (auto simp: rev_image_eqI)

lemma keys_dict_set_notin: "k \<notin> fst ` set d \<Longrightarrow> map fst (dict_set d k v) = map fst d @ [k]"
  by (induction d) auto

lemma distinct_dict_set: "distinct (map fst d) \<Longrightarrow> distinct (map fst (dict_set d k v))"
  by (cases "k \<in> fst ` set d") (simp_all add: keys_dict_set_in keys_dict_set_notin)

lemma set_dict_set:
  "distinct (map fst d) \<Longrightarrow> set (dict_set d k v) = insert (k, v) {e \<in> set d. fst e \<noteq> k}"
proof (induction d)
  case Nil
  then show ?case by simp
next
  case (Cons e d)
  obtain k' v' where e: "e = (k', v')" by (cases e)
  show ?case
  proof (cases "k' = k")
    case True
    with Cons.prems e have "\<And>x. x \<in> set d \<Longrightarrow> fst x \<noteq> k" by (auto simp: image_iff)
    with True e show ?thesis by auto
  next
    case False
    with Cons e show ?thesis by auto
  qed
qed



lemma map_of_entry: "distinct (map fst d) \<Longrightarrow> (k, v) \<in> set d \<longleftrightarrow> map_of d k = Some v"
  by (auto dest: map_of_SomeD)




lemma grid_get_set_Some:
  assumes "grid_get g y x = Some c" shows "\<exists>g'. grid_set g y x v = Some g'"
proof -
  from assms obtain row where r: "py_nth g y = Some row" and c: "py_nth row x = Some c"
    by (auto simp: grid_get_def split: bind_splits)
  from c obtain row' where "py_set row x v = Some row'" by (auto simp: py_nth_def py_set_def)
  moreover from r have "\<exists>g'. py_set g y row' = Some g'" for row'
    by (auto simp: py_nth_def py_set_def)
  ultimately show ?thesis using r by (auto simp: grid_set_def)
qed

lemma cell_grid_set:
  assumes "grid_set g y x v = Some g'" and "0 \<le> x" "0 \<le> y" "0 \<le> fst p" "0 \<le> snd p"
  shows "cell g' p = (if p = (x, y) then Some v else cell g p)"
proof -
  from assms(1) obtain row row' where
    r: "py_nth g y = Some row" and r': "py_set row x v = Some row'" and g': "py_set g y row' = Some g'"
    by (auto simp: grid_set_def split: bind_splits)
  from r assms(3) have y: "y < int (length g)" "row = g ! nat y"
    by (auto simp: py_nth_def py_index_def split: if_splits)
  from r' assms(2) have x: "x < int (length row)" "row' = row[nat x := v]"
    by (auto simp: py_set_def py_index_def split: if_splits)
  from g' assms(3) y have g'_eq: "g' = g[nat y := row']"
    by (auto simp: py_set_def py_index_def split: if_splits)
  obtain px py where p: "p = (px, py)" by (cases p)
  with assms have nn: "0 \<le> px" "0 \<le> py" by auto
  show ?thesis
  proof (cases "py = y")
    case True
    have "py_nth g' py = Some row'" using g'_eq y True assms(3)
      by (simp add: py_nth_def py_index_def)
    moreover have "py_nth g py = Some row" using r True by simp
    moreover have "py_nth row' px = (if px = x then Some v else py_nth row px)"
      using x nn assms(2) by (auto simp: py_nth_def py_index_def nat_eq_iff)
    ultimately show ?thesis using True p by (auto simp: cell_def grid_get_def)
  next
    case False
    hence "nat py \<noteq> nat y" using nn assms(3) by auto
    hence "py_nth g' py = py_nth g py" using g'_eq nn
      by (auto simp: py_nth_def py_index_def)
    thus ?thesis using False p by (auto simp: cell_def grid_get_def)
  qed
qed

lemma other_occupant_in_cases:
  "other_occupant_in d pos ex = r \<Longrightarrow>
     r = 0 \<or> (\<exists>p. (r, p) \<in> set d \<and> r \<noteq> ex \<and> pos \<in> set p)"
  by (induction d) (auto split: if_splits)


lemma other_occupant_in_nonzero:
  "(c, p) \<in> set d \<Longrightarrow> c \<noteq> ex \<Longrightarrow> pos \<in> set p \<Longrightarrow> \<forall>(k, q) \<in> set d. k \<noteq> 0 \<Longrightarrow>
     other_occupant_in d pos ex \<noteq> 0"
  by (induction d) (auto split: if_splits)

section \<open>cd01: what the operations keep\<close>

lemma paths_okD:
  assumes "paths_ok w h g eps br ps"
  shows "distinct (map fst ps)" "distinct (map fst eps)"
    and "\<And>c e1 e2. (c, e1, e2) \<in> set eps \<Longrightarrow>
           0 < c \<and> on_board w h e1 \<and> on_board w h e2 \<and> cell g e1 = Some c \<and> cell g e2 = Some c"
    and "\<And>c p. (c, p) \<in> set ps \<Longrightarrow> 0 < c \<and> distinct p
           \<and> (p \<noteq> [] \<longrightarrow> (\<exists>e1 e2. (c, e1, e2) \<in> set eps \<and> (hd p = e1 \<or> hd p = e2)))"
    and "\<And>c p x. (c, p) \<in> set ps \<Longrightarrow> x \<in> set p \<Longrightarrow>
           on_board w h x \<and> cell g x \<noteq> Some 0 \<and> (x \<in> br \<or> cell g x = Some c)"
proof -
  from assms have a: "distinct (map fst ps)" and b: "distinct (map fst eps)"
    and c: "\<forall>e \<in> set eps. case e of (c, e1, e2) \<Rightarrow> 0 < c \<and> on_board w h e1 \<and> on_board w h e2
         \<and> cell g e1 = Some c \<and> cell g e2 = Some c"
    and d: "\<forall>e \<in> set ps. case e of (c, p) \<Rightarrow> 0 < c \<and> distinct p
         \<and> (p \<noteq> [] \<longrightarrow> (\<exists>(c', e1, e2) \<in> set eps. c' = c \<and> (hd p = e1 \<or> hd p = e2)))
         \<and> (\<forall>x \<in> set p. on_board w h x \<and> cell g x \<noteq> Some 0 \<and> (x \<in> br \<or> cell g x = Some c))"
    unfolding paths_ok_def by simp_all
  show "distinct (map fst ps)" "distinct (map fst eps)" by (rule a, rule b)
  show "0 < c \<and> on_board w h e1 \<and> on_board w h e2 \<and> cell g e1 = Some c \<and> cell g e2 = Some c"
    if "(c, e1, e2) \<in> set eps" for c e1 e2
    using bspec [OF c that] by simp
  show "0 < c \<and> distinct p
           \<and> (p \<noteq> [] \<longrightarrow> (\<exists>e1 e2. (c, e1, e2) \<in> set eps \<and> (hd p = e1 \<or> hd p = e2)))"
    if "(c, p) \<in> set ps" for c p
    using bspec [OF d that] by auto
  show "on_board w h x \<and> cell g x \<noteq> Some 0 \<and> (x \<in> br \<or> cell g x = Some c)"
    if "(c, p) \<in> set ps" "x \<in> set p" for c p x
    using bspec [OF d that(1)] that(2) by simp
qed

lemma paths_okI:
  assumes "distinct (map fst ps)" "distinct (map fst eps)"
    and "\<And>c e1 e2. (c, e1, e2) \<in> set eps \<Longrightarrow>
           0 < c \<and> on_board w h e1 \<and> on_board w h e2 \<and> cell g e1 = Some c \<and> cell g e2 = Some c"
    and "\<And>c p. (c, p) \<in> set ps \<Longrightarrow> 0 < c \<and> distinct p
           \<and> (p \<noteq> [] \<longrightarrow> (\<exists>e1 e2. (c, e1, e2) \<in> set eps \<and> (hd p = e1 \<or> hd p = e2)))"
    and "\<And>c p x. (c, p) \<in> set ps \<Longrightarrow> x \<in> set p \<Longrightarrow>
           on_board w h x \<and> cell g x \<noteq> Some 0 \<and> (x \<in> br \<or> cell g x = Some c)"
  shows "paths_ok w h g eps br ps"
  unfolding paths_ok_def
proof (intro conjI ballI)
  show "distinct (map fst ps)" "distinct (map fst eps)" by (rule assms(1), rule assms(2))
  fix e assume e: "e \<in> set eps"
  obtain c e1 e2 where "e = (c, e1, e2)" by (cases e) auto
  with assms(3) [of c e1 e2] e
  show "case e of (c, e1, e2) \<Rightarrow> 0 < c \<and> on_board w h e1 \<and> on_board w h e2
         \<and> cell g e1 = Some c \<and> cell g e2 = Some c" by simp
next
  fix e assume e: "e \<in> set ps"
  obtain c p where "e = (c, p)" by (cases e)
  with assms(4) [of c p] assms(5) [of c p] e
  show "case e of (c, p) \<Rightarrow> 0 < c \<and> distinct p
         \<and> (p \<noteq> [] \<longrightarrow> (\<exists>(c', e1, e2) \<in> set eps. c' = c \<and> (hd p = e1 \<or> hd p = e2)))
         \<and> (\<forall>x \<in> set p. on_board w h x \<and> cell g x \<noteq> Some 0 \<and> (x \<in> br \<or> cell g x = Some c))"
    by force
qed

text \<open>Storing a new path for one colour, on a possibly changed grid.\<close>

lemma paths_ok_replace:
  assumes ok: "paths_ok w h g eps br ps"
    and col: "0 < color" and d: "distinct p'"
    and hd: "p' \<noteq> [] \<Longrightarrow> \<exists>e1 e2. (color, e1, e2) \<in> set eps \<and> (hd p' = e1 \<or> hd p' = e2)"
    and new: "\<And>x. x \<in> set p' \<Longrightarrow>
                on_board w h x \<and> cell g' x \<noteq> Some 0 \<and> (x \<in> br \<or> cell g' x = Some color)"
    and oth: "\<And>c p x. (c, p) \<in> set ps \<Longrightarrow> c \<noteq> color \<Longrightarrow> x \<in> set p \<Longrightarrow>
                cell g' x \<noteq> Some 0 \<and> (x \<in> br \<or> cell g' x = Some c)"
    and ends: "\<And>c e1 e2. (c, e1, e2) \<in> set eps \<Longrightarrow> cell g' e1 = Some c \<and> cell g' e2 = Some c"
  shows "paths_ok w h g' eps br (dict_set ps color p')"
proof (rule paths_okI)
  note D = paths_okD [OF ok]
  have S: "set (dict_set ps color p') = insert (color, p') {e \<in> set ps. fst e \<noteq> color}"
    using D(1) by (rule set_dict_set)
  show "distinct (map fst (dict_set ps color p'))" using D(1) by (rule distinct_dict_set)
  show "distinct (map fst eps)" by (rule D(2))
  show "0 < c \<and> on_board w h e1 \<and> on_board w h e2 \<and> cell g' e1 = Some c \<and> cell g' e2 = Some c"
    if "(c, e1, e2) \<in> set eps" for c e1 e2
    using D(3) [OF that] ends [OF that] by simp
  show "0 < c \<and> distinct p
           \<and> (p \<noteq> [] \<longrightarrow> (\<exists>e1 e2. (c, e1, e2) \<in> set eps \<and> (hd p = e1 \<or> hd p = e2)))"
    if "(c, p) \<in> set (dict_set ps color p')" for c p
  proof (cases "(c, p) = (color, p')")
    case True
    with col d hd show ?thesis by auto
  next
    case False
    with that S have "(c, p) \<in> set ps" by auto
    from D(4) [OF this] show ?thesis .
  qed
  show "on_board w h x \<and> cell g' x \<noteq> Some 0 \<and> (x \<in> br \<or> cell g' x = Some c)"
    if "(c, p) \<in> set (dict_set ps color p')" "x \<in> set p" for c p x
  proof (cases "(c, p) = (color, p')")
    case True
    with new [of x] that(2) show ?thesis by auto
  next
    case False
    with that(1) S have in_ps: "(c, p) \<in> set ps" and ne: "c \<noteq> color" by auto
    from D(5) [OF in_ps that(2)] oth [OF in_ps ne that(2)] show ?thesis by simp
  qed
qed

lemma released_refl: "released w h ps color R g g"
  by (simp add: released_def)

lemma released_mono: "released w h ps color R g g' \<Longrightarrow> R \<subseteq> R' \<Longrightarrow> released w h ps color R' g g'"
  unfolding released_def by blast

lemma paths_ok_release:
  assumes ok: "paths_ok w h g eps br ps"
    and ep: "(color, e1, e2) \<in> set eps"
    and path: "path = [] \<or> (color, path) \<in> set ps"
    and rel: "released w h ps color R g g'"
    and R: "R \<subseteq> set path - set p' - {e1, e2}"
    and sub: "set p' \<subseteq> set path" and d: "distinct p'"
    and hd: "p' \<noteq> [] \<Longrightarrow> hd p' = hd path"
  shows "paths_ok w h g' eps br (dict_set ps color p')"
proof (rule paths_ok_replace [OF ok])
  note D = paths_okD [OF ok]
  show col: "0 < color" using D(3) [OF ep] by simp
  show "distinct p'" by (rule d)
  have inps: "(color, path) \<in> set ps" if "x \<in> set path" for x using path that by auto
  show "\<exists>e1 e2. (color, e1, e2) \<in> set eps \<and> (hd p' = e1 \<or> hd p' = e2)" if "p' \<noteq> []"
  proof -
    from that sub obtain x where "x \<in> set path" by (cases p') auto
    hence "(color, path) \<in> set ps" and "path \<noteq> []" using inps by auto
    with D(4) [of color path] hd [OF that] show ?thesis by simp
  qed
  show "on_board w h x \<and> cell g' x \<noteq> Some 0 \<and> (x \<in> br \<or> cell g' x = Some color)"
    if "x \<in> set p'" for x
  proof -
    from that sub have xp: "x \<in> set path" by auto
    from D(5) [OF inps [OF xp] xp] have o: "on_board w h x" "cell g x \<noteq> Some 0"
      "x \<in> br \<or> cell g x = Some color" by simp_all
    from that R have "x \<notin> R" by auto
    with rel o(1) have "cell g' x = cell g x" unfolding released_def by blast
    with o show ?thesis by simp
  qed
  show "cell g' x \<noteq> Some 0 \<and> (x \<in> br \<or> cell g' x = Some c)"
    if "(c, p) \<in> set ps" "c \<noteq> color" "x \<in> set p" for c p x
  proof -
    from D(5) [OF that(1,3)] have o: "on_board w h x" "cell g x \<noteq> Some 0"
      "x \<in> br \<or> cell g x = Some c" by simp_all
    show ?thesis
    proof (cases "cell g' x = cell g x")
      case True
      with o show ?thesis by simp
    next
      case False
      with rel o(1) have ch: "cell g x = Some color"
        "cell g' x = Some (other_occupant_in ps x color)" unfolding released_def by blast+
      have "\<forall>(k, q) \<in> set ps. k \<noteq> 0" using D(4) by fastforce
      from other_occupant_in_nonzero [OF that(1,2,3) this] ch o(3) that(2) show ?thesis by auto
    qed
  qed
  show "cell g' a = Some c \<and> cell g' b = Some c" if "(c, a, b) \<in> set eps" for c a b
  proof -
    from D(3) [OF that] have o: "on_board w h a" "on_board w h b"
      "cell g a = Some c" "cell g b = Some c" by simp_all
    have same: "cell g' x = cell g x" if x: "x = a \<or> x = b" for x
    proof (rule ccontr)
      assume "cell g' x \<noteq> cell g x"
      moreover have "on_board w h x" using x o by auto
      ultimately have xr: "x \<in> R" and "cell g x = Some color" using rel unfolding released_def by blast+
      with x o have "c = color" by auto
      with \<open>(c, a, b) \<in> set eps\<close> ep D(2) have "(a, b) = (e1, e2)"
        by (metis map_of_is_SomeI option.inject)
      with x xr R show False by auto
    qed
    from same [of a] same [of b] o show ?thesis by simp
  qed
qed

lemma other_occupant_in_dict_set:
  "other_occupant_in (dict_set d k v) pos k = other_occupant_in d pos k"
  by (induction d) auto

lemma on_board_nonneg: "on_board w h x \<Longrightarrow> 0 \<le> fst x \<and> 0 \<le> snd x"
  by (simp add: on_board_def)

lemma released_grid_set:
  assumes set: "grid_set g (snd r) (fst r) (other_occupant_in ps r color) = Some g'"
    and c: "cell g r = Some color" and r: "0 \<le> fst r" "0 \<le> snd r" and rR: "r \<in> R"
  shows "released w h ps color R g g'"
  unfolding released_def
proof (intro allI impI)
  fix x assume "on_board w h x"
  hence nn: "0 \<le> fst x" "0 \<le> snd x" by (simp_all add: on_board_def)
  have "cell g' x = (if x = (fst r, snd r) then Some (other_occupant_in ps r color) else cell g x)"
    using set r nn by (rule cell_grid_set)
  thus "cell g' x = cell g x
        \<or> (x \<in> R \<and> cell g x = Some color \<and> cell g' x = Some (other_occupant_in ps x color))"
    using c rR by (cases "x = r") auto
qed

lemma undo_last_cell_effect:
  assumes u: "undo_last_cell s color = Some s'"
    and p: "map_of (cd_drawn_paths s) color = Some path" "path \<noteq> []"
    and b: "0 \<le> fst (last path)" "0 \<le> snd (last path)"
  shows "\<exists>g' e1 e2. map_of (cd_endpoints s) color = Some (e1, e2)
     \<and> s' = s\<lparr>cd_drawn_paths := dict_set (cd_drawn_paths s) color (butlast path), cd_grid := g'\<rparr>
     \<and> released w h (cd_drawn_paths s) color ({last path} - {e1, e2}) (cd_grid s) g'"
proof -
  let ?ps = "cd_drawn_paths s"
  let ?s1 = "s\<lparr>cd_drawn_paths := dict_set ?ps color (butlast path)\<rparr>"
  obtain rx ry where r: "last path = (rx, ry)" by (cases "last path")
  from u p r obtain e1 e2 where e: "map_of (cd_endpoints s) color = Some (e1, e2)"
    by (cases "map_of (cd_endpoints s) color") (auto simp: undo_last_cell_def Let_def)
  have s1: "?s1 = s\<lparr>cd_drawn_paths := dict_set ?ps color (butlast path), cd_grid := cd_grid s\<rparr>"
    by simp
  show ?thesis
  proof (cases "last path = e1 \<or> last path = e2")
    case True
    with u p r e have "s' = ?s1" by (auto simp: undo_last_cell_def Let_def)
    with e s1 released_refl show ?thesis by metis
  next
    case False
    have eq: "undo_last_cell s color =
        (case grid_get (cd_grid s) ry rx of
           None \<Rightarrow> None
         | Some c \<Rightarrow>
             if c = color then
               map_option (\<lambda>g. ?s1\<lparr>cd_grid := g\<rparr>)
                 (grid_set (cd_grid s) ry rx (other_occupant_in ?ps (last path) color))
             else Some ?s1)"
      using p r e False
      by (simp add: undo_last_cell_def Let_def other_occupant_def other_occupant_in_dict_set
           cong: if_cong split: option.splits)
    with u obtain c where c: "grid_get (cd_grid s) ry rx = Some c"
      and rest: "(if c = color then
                    map_option (\<lambda>g. ?s1\<lparr>cd_grid := g\<rparr>)
                      (grid_set (cd_grid s) ry rx (other_occupant_in ?ps (last path) color))
                  else Some ?s1) = Some s'"
      by (cases "grid_get (cd_grid s) ry rx") auto
    show ?thesis
    proof (cases "c = color")
      case ne: False
      with rest have "s' = ?s1" by simp
      with e s1 released_refl show ?thesis by metis
    next
      case True
      from rest True obtain g' where
        g': "grid_set (cd_grid s) ry rx (other_occupant_in ?ps (last path) color) = Some g'"
        and s': "s' = ?s1\<lparr>cd_grid := g'\<rparr>"
        by auto
      have "released w h ?ps color ({last path} - {e1, e2}) (cd_grid s) g'"
      proof (rule released_grid_set)
        show "grid_set (cd_grid s) (snd (last path)) (fst (last path))
                (other_occupant_in ?ps (last path) color) = Some g'"
          using g' r by simp
        show "cell (cd_grid s) (last path) = Some color" using c True r by (simp add: cell_def)
        show "0 \<le> fst (last path)" "0 \<le> snd (last path)" by (rule b)+
        show "last path \<in> {last path} - {e1, e2}" using False by simp
      qed
      with e s' show ?thesis by auto
    qed
  qed
qed

text \<open>The loop of \<open>_clear_drawn_path\<close>.\<close>

lemma clear_cell_released:
  assumes rel: "released w h ps color R g0 g"
    and cc: "clear_cell s color e1 e2 g pos = Some g'"
    and ps: "cd_drawn_paths s = ps"
    and pos: "on_board w h pos" and col: "color \<noteq> 0"
    and R: "pos \<notin> {e1, e2} \<Longrightarrow> pos \<in> R"
  shows "released w h ps color R g0 g'"
proof (cases "pos = e1 \<or> pos = e2")
  case True
  with cc rel show ?thesis by (simp add: clear_cell_def)
next
  case False
  obtain px py where p: "pos = (px, py)" by (cases pos)
  from cc False p obtain c where c: "grid_get g py px = Some c"
    and rest: "(if c = color then grid_set g py px (other_occupant s pos color) else Some g) = Some g'"
    by (auto simp: clear_cell_def split: bind_splits)
  show ?thesis
  proof (cases "c = color")
    case ne: False
    with rest rel show ?thesis by simp
  next
    case True
    with rest have g': "grid_set g (snd pos) (fst pos) (other_occupant_in ps pos color) = Some g'"
      by (simp add: other_occupant_def ps p)
    have cg: "cell g pos = Some color" using c True p by (simp add: cell_def)
    have nn: "0 \<le> fst pos" "0 \<le> snd pos" using pos by (simp_all add: on_board_def)
    have unchanged: "cell g0 pos = Some color"
    proof -
      from rel pos have "cell g pos = cell g0 pos
          \<or> (cell g pos = Some (other_occupant_in ps pos color))"
        unfolding released_def by metis
      moreover have "other_occupant_in ps pos color \<noteq> color"
        using other_occupant_in_cases [OF refl, of ps pos color] col by auto
      ultimately show ?thesis using cg by auto
    qed
    show ?thesis
      unfolding released_def
    proof (intro allI impI)
      fix x assume x: "on_board w h x"
      hence xn: "0 \<le> fst x" "0 \<le> snd x" by (simp_all add: on_board_def)
      have eq: "cell g' x = (if x = (fst pos, snd pos) then Some (other_occupant_in ps pos color)
                             else cell g x)"
        using g' nn xn by (rule cell_grid_set)
      show "cell g' x = cell g0 x
        \<or> (x \<in> R \<and> cell g0 x = Some color \<and> cell g' x = Some (other_occupant_in ps x color))"
      proof (cases "x = pos")
        case True
        with eq unchanged R False show ?thesis by auto
      next
        case ne: False
        with eq have "cell g' x = cell g x" by auto
        with rel x show ?thesis unfolding released_def by metis
      qed
    qed
  qed
qed

lemma clear_fold_released:
  assumes "foldM (clear_cell s color e1 e2) path g = Some g'"
    and "released w h ps color R g0 g"
    and "cd_drawn_paths s = ps" and "color \<noteq> 0"
    and "\<And>x. x \<in> set path \<Longrightarrow> on_board w h x"
    and "set path - {e1, e2} \<subseteq> R"
  shows "released w h ps color R g0 g'"
  using assms
proof (induction path arbitrary: g)
  case Nil
  then show ?case by simp
next
  case (Cons pos path)
  from Cons.prems(1) obtain g1 where g1: "clear_cell s color e1 e2 g pos = Some g1"
    and rest: "foldM (clear_cell s color e1 e2) path g1 = Some g'"
    by (auto split: option.splits)
  have "released w h ps color R g0 g1"
    using Cons.prems(2) g1 Cons.prems(3) _ Cons.prems(4)
  proof (rule clear_cell_released)
    show "on_board w h pos" using Cons.prems(5) by simp
    show "pos \<in> R" if "pos \<notin> {e1, e2}" using that Cons.prems(6) by auto
  qed
  from Cons.IH [OF rest this Cons.prems(3,4)] Cons.prems(5,6) show ?case by auto
qed

text \<open>The ways in which \<open>_extend_path\<close> returns.\<close>

lemma extend_path_cases:
  assumes "extend_path s dx dy = Some s'"
  obtains (noop) "s' = s"
  | (backstep) path s1 where
      "map_of (cd_drawn_paths s) (cd_selected_color s) = Some path" "2 \<le> length path"
      "(cd_cursor_x s + dx, cd_cursor_y s + dy) = path ! (length path - 2)"
      "undo_last_cell s (cd_selected_color s) = Some s1"
      "s' = s1\<lparr>cd_cursor_x := cd_cursor_x s + dx, cd_cursor_y := cd_cursor_y s + dy\<rparr>"
  | (finish) path e1 e2 where
      "map_of (cd_drawn_paths s) (cd_selected_color s) = Some path" "path \<noteq> []"
      "(cd_cursor_x s + dx, cd_cursor_y s + dy) \<notin> set path"
      "on_board (cd_grid_w s) (cd_grid_h s) (cd_cursor_x s + dx, cd_cursor_y s + dy)"
      "map_of (cd_endpoints s) (cd_selected_color s) = Some (e1, e2)"
      "(cd_cursor_x s + dx, cd_cursor_y s + dy) = (if hd path = e1 then e2 else e1)"
      "s' = s\<lparr>cd_drawn_paths := dict_set (cd_drawn_paths s) (cd_selected_color s)
                   (path @ [(cd_cursor_x s + dx, cd_cursor_y s + dy)]),
               cd_cursor_x := cd_cursor_x s + dx, cd_cursor_y := cd_cursor_y s + dy,
               cd_selected_color := 0\<rparr>"
  | (fill) path e1 e2 g where
      "map_of (cd_drawn_paths s) (cd_selected_color s) = Some path" "path \<noteq> []"
      "(cd_cursor_x s + dx, cd_cursor_y s + dy) \<notin> set path"
      "on_board (cd_grid_w s) (cd_grid_h s) (cd_cursor_x s + dx, cd_cursor_y s + dy)"
      "map_of (cd_endpoints s) (cd_selected_color s) = Some (e1, e2)"
      "cell (cd_grid s) (cd_cursor_x s + dx, cd_cursor_y s + dy) = Some 0"
      "grid_set (cd_grid s) (cd_cursor_y s + dy) (cd_cursor_x s + dx) (cd_selected_color s) = Some g"
      "s' = s\<lparr>cd_drawn_paths := dict_set (cd_drawn_paths s) (cd_selected_color s)
                   (path @ [(cd_cursor_x s + dx, cd_cursor_y s + dy)]),
               cd_grid := g,
               cd_cursor_x := cd_cursor_x s + dx, cd_cursor_y := cd_cursor_y s + dy\<rparr>"
  | (bridge) path e1 e2 c where
      "map_of (cd_drawn_paths s) (cd_selected_color s) = Some path" "path \<noteq> []"
      "(cd_cursor_x s + dx, cd_cursor_y s + dy) \<notin> set path"
      "on_board (cd_grid_w s) (cd_grid_h s) (cd_cursor_x s + dx, cd_cursor_y s + dy)"
      "map_of (cd_endpoints s) (cd_selected_color s) = Some (e1, e2)"
      "cell (cd_grid s) (cd_cursor_x s + dx, cd_cursor_y s + dy) = Some c" "c \<noteq> 0"
      "c \<noteq> cd_selected_color s"
      "(cd_cursor_x s + dx, cd_cursor_y s + dy) \<in> cd_bridges s"
      "s' = s\<lparr>cd_drawn_paths := dict_set (cd_drawn_paths s) (cd_selected_color s)
                   (path @ [(cd_cursor_x s + dx, cd_cursor_y s + dy)]),
               cd_cursor_x := cd_cursor_x s + dx, cd_cursor_y := cd_cursor_y s + dy\<rparr>"
proof -
  let ?nx = "cd_cursor_x s + dx" and ?ny = "cd_cursor_y s + dy"
  let ?color = "cd_selected_color s"
  show thesis
  proof (cases "0 \<le> ?nx \<and> ?nx < cd_grid_w s \<and> 0 \<le> ?ny \<and> ?ny < cd_grid_h s")
    case False
    with assms have "s' = s" by (simp add: extend_path_def Let_def)
    then show ?thesis by (rule noop)
  next
    case inb: True
    hence ob: "on_board (cd_grid_w s) (cd_grid_h s) (?nx, ?ny)" by (simp add: on_board_def)
    show ?thesis
    proof (cases "map_of (cd_drawn_paths s) ?color")
      case None
      with assms inb have "s' = s" by (simp add: extend_path_def Let_def)
      then show ?thesis by (rule noop)
    next
      case (Some path)
      show ?thesis
      proof (cases "path = []")
        case True
        with assms inb Some have "s' = s" by (simp add: extend_path_def Let_def)
        then show ?thesis by (rule noop)
      next
        case ne: False
        show ?thesis
        proof (cases "2 \<le> length path \<and> (?nx, ?ny) = path ! (length path - 2)")
          case True
          with assms inb Some ne obtain s1 where "undo_last_cell s ?color = Some s1"
            "s' = s1\<lparr>cd_cursor_x := ?nx, cd_cursor_y := ?ny\<rparr>"
            by (auto simp: extend_path_def Let_def)
          with Some True show ?thesis by (intro backstep [of path s1]) auto
        next
          case nb: False
          show ?thesis
          proof (cases "(?nx, ?ny) \<in> set path")
            case True
            with assms inb Some ne nb have "s' = s" by (auto simp: extend_path_def Let_def)
            then show ?thesis by (rule noop)
          next
            case notin: False
            from assms inb Some ne nb notin obtain e1 e2 where
              e: "map_of (cd_endpoints s) ?color = Some (e1, e2)"
              by (cases "map_of (cd_endpoints s) ?color") (auto simp: extend_path_def Let_def)
            have eq: "extend_path s dx dy =
                (if (?nx, ?ny) = (if hd path = e1 then e2 else e1) then
                   Some ((append_cell s ?color path (?nx, ?ny))
                           \<lparr>cd_cursor_x := ?nx, cd_cursor_y := ?ny, cd_selected_color := 0\<rparr>)
                 else case grid_get (cd_grid s) ?ny ?nx of
                   None \<Rightarrow> None
                 | Some c \<Rightarrow>
                     if c = 0 then
                       (case grid_set (cd_grid s) ?ny ?nx ?color of
                          None \<Rightarrow> None
                        | Some g \<Rightarrow> Some ((append_cell s ?color path (?nx, ?ny))
                                \<lparr>cd_grid := g, cd_cursor_x := ?nx, cd_cursor_y := ?ny\<rparr>))
                     else if (?nx, ?ny) \<in> cd_bridges s \<and> c \<noteq> ?color then
                       Some ((append_cell s ?color path (?nx, ?ny))
                               \<lparr>cd_cursor_x := ?nx, cd_cursor_y := ?ny\<rparr>)
                     else Some s)"
              using inb Some ne nb notin e
              by (auto simp: extend_path_def Let_def split: option.splits bind_splits)
            show ?thesis
            proof (cases "(?nx, ?ny) = (if hd path = e1 then e2 else e1)")
              case True
              with assms eq have "s' = s\<lparr>cd_drawn_paths := dict_set (cd_drawn_paths s) ?color
                   (path @ [(?nx, ?ny)]), cd_cursor_x := ?nx, cd_cursor_y := ?ny,
                   cd_selected_color := 0\<rparr>"
                by (simp add: append_cell_def)
              with Some ne notin ob e True show ?thesis by (intro finish [of path e1 e2]) auto
            next
              case nf: False
              with assms eq obtain c where c: "grid_get (cd_grid s) ?ny ?nx = Some c"
                and rest: "(if c = 0 then
                       (case grid_set (cd_grid s) ?ny ?nx ?color of
                          None \<Rightarrow> None
                        | Some g \<Rightarrow> Some ((append_cell s ?color path (?nx, ?ny))
                                \<lparr>cd_grid := g, cd_cursor_x := ?nx, cd_cursor_y := ?ny\<rparr>))
                     else if (?nx, ?ny) \<in> cd_bridges s \<and> c \<noteq> ?color then
                       Some ((append_cell s ?color path (?nx, ?ny))
                               \<lparr>cd_cursor_x := ?nx, cd_cursor_y := ?ny\<rparr>)
                     else Some s) = Some s'"
                by (cases "grid_get (cd_grid s) ?ny ?nx") auto
              have cc: "cell (cd_grid s) (?nx, ?ny) = Some c" using c by (simp add: cell_def)
              show ?thesis
              proof (cases "c = 0")
                case True
                with rest obtain g where g: "grid_set (cd_grid s) ?ny ?nx ?color = Some g"
                  and "s' = (append_cell s ?color path (?nx, ?ny))
                                \<lparr>cd_grid := g, cd_cursor_x := ?nx, cd_cursor_y := ?ny\<rparr>"
                  by (cases "grid_set (cd_grid s) ?ny ?nx ?color") auto
                hence "s' = s\<lparr>cd_drawn_paths := dict_set (cd_drawn_paths s) ?color
                   (path @ [(?nx, ?ny)]), cd_grid := g, cd_cursor_x := ?nx, cd_cursor_y := ?ny\<rparr>"
                  by (simp add: append_cell_def)
                with Some ne notin ob e cc True g show ?thesis
                  by (intro fill [of path e1 e2 g]) auto
              next
                case nz: False
                show ?thesis
                proof (cases "(?nx, ?ny) \<in> cd_bridges s \<and> c \<noteq> ?color")
                  case True
                  with rest nz have "s' = s\<lparr>cd_drawn_paths := dict_set (cd_drawn_paths s) ?color
                     (path @ [(?nx, ?ny)]), cd_cursor_x := ?nx, cd_cursor_y := ?ny\<rparr>"
                    by (simp add: append_cell_def)
                  with Some ne notin ob e cc nz True show ?thesis
                    by (intro bridge [of path e1 e2 c]) auto
                next
                  case False
                  with rest nz have "s' = s" by auto
                  then show ?thesis by (rule noop)
                qed
              qed
            qed
          qed
        qed
      qed
    qed
  qed
qed

lemma distinct_last_butlast: "distinct xs \<Longrightarrow> xs \<noteq> [] \<Longrightarrow> last xs \<notin> set (butlast xs)"
proof -
  assume d: "distinct xs" and ne: "xs \<noteq> []"
  hence "distinct (butlast xs @ [last xs])" by simp
  thus ?thesis by (simp del: append_butlast_last_id)
qed

lemma hd_butlast: "butlast xs \<noteq> [] \<Longrightarrow> hd (butlast xs) = hd xs"
  by (cases xs) (auto split: if_splits)

lemma undo_last_cell_cases:
  assumes ok: "paths_ok (cd_grid_w s) (cd_grid_h s) (cd_grid s) (cd_endpoints s) (cd_bridges s)
                 (cd_drawn_paths s)"
    and u: "undo_last_cell s color = Some s'"
  obtains (none) "map_of (cd_drawn_paths s) color = Some []" "s' = s"
  | (cut) path g' e1 e2 where "map_of (cd_drawn_paths s) color = Some path" "path \<noteq> []"
      "map_of (cd_endpoints s) color = Some (e1, e2)"
      "s' = s\<lparr>cd_drawn_paths := dict_set (cd_drawn_paths s) color (butlast path), cd_grid := g'\<rparr>"
      "released (cd_grid_w s) (cd_grid_h s) (cd_drawn_paths s) color
         ({last path} - {e1, e2}) (cd_grid s) g'"
proof -
  note D = paths_okD [OF ok]
  from u obtain path where p: "map_of (cd_drawn_paths s) color = Some path"
    by (cases "map_of (cd_drawn_paths s) color") (auto simp: undo_last_cell_def)
  hence inps: "(color, path) \<in> set (cd_drawn_paths s)" by (rule map_of_SomeD)
  show ?thesis
  proof (cases "path = []")
    case True
    with u p have "s' = s" by (simp add: undo_last_cell_def)
    with p True show ?thesis by (auto intro: none)
  next
    case False
    hence lp: "last path \<in> set path" by simp
    from D(5) [OF inps lp] have b: "0 \<le> fst (last path)" "0 \<le> snd (last path)"
      by (simp_all add: on_board_def)
    from undo_last_cell_effect [OF u p False b, of "cd_grid_w s" "cd_grid_h s"]
    obtain g' e1 e2 where "map_of (cd_endpoints s) color = Some (e1, e2)"
      "s' = s\<lparr>cd_drawn_paths := dict_set (cd_drawn_paths s) color (butlast path),
                      cd_grid := g'\<rparr>"
      "released (cd_grid_w s) (cd_grid_h s) (cd_drawn_paths s) color
                  ({last path} - {e1, e2}) (cd_grid s) g'"
      by blast
    with p False show ?thesis by (rule cut)
  qed
qed

lemma undo_last_cell_ok:
  assumes ok: "paths_ok (cd_grid_w s) (cd_grid_h s) (cd_grid s) (cd_endpoints s) (cd_bridges s)
                 (cd_drawn_paths s)"
    and u: "undo_last_cell s color = Some s'"
  shows "paths_ok (cd_grid_w s') (cd_grid_h s') (cd_grid s') (cd_endpoints s') (cd_bridges s')
           (cd_drawn_paths s')"
  using ok u
proof (cases rule: undo_last_cell_cases)
  case none
  with ok show ?thesis by simp
next
  case (cut path g' e1 e2)
  note D = paths_okD [OF ok]
  from cut(1) have inps: "(color, path) \<in> set (cd_drawn_paths s)" by (rule map_of_SomeD)
  from cut(2) have lp: "last path \<in> set path" by simp
  have "paths_ok (cd_grid_w s) (cd_grid_h s) g' (cd_endpoints s) (cd_bridges s)
          (dict_set (cd_drawn_paths s) color (butlast path))"
  proof (rule paths_ok_release [OF ok _ _ cut(5)])
    show "(color, e1, e2) \<in> set (cd_endpoints s)" using cut(3) by (rule map_of_SomeD)
    show "path = [] \<or> (color, path) \<in> set (cd_drawn_paths s)" using inps by simp
    have "distinct path" using D(4) [OF inps] by simp
    from distinct_last_butlast [OF this cut(2)]
    show "{last path} - {e1, e2} \<subseteq> set path - set (butlast path) - {e1, e2}" using lp by auto
    show "set (butlast path) \<subseteq> set path" by (auto dest: in_set_butlastD)
    show "distinct (butlast path)" using \<open>distinct path\<close> by (rule distinct_butlast)
    show "hd (butlast path) = hd path" if "butlast path \<noteq> []" using that by (rule hd_butlast)
  qed
  thus ?thesis by (simp add: cut(4))
qed

lemma clear_drawn_path_effect:
  assumes "clear_drawn_path s color = Some s'"
  obtains g' e1 e2 where "map_of (cd_endpoints s) color = Some (e1, e2)"
    "foldM (clear_cell s color e1 e2) (path_of s color) (cd_grid s) = Some g'"
    "s' = s\<lparr>cd_grid := g', cd_drawn_paths := dict_set (cd_drawn_paths s) color []\<rparr>"
  using assms by (auto simp: clear_drawn_path_def split: option.splits)

lemma clear_drawn_path_ok:
  assumes ok: "paths_ok (cd_grid_w s) (cd_grid_h s) (cd_grid s) (cd_endpoints s) (cd_bridges s)
                 (cd_drawn_paths s)"
    and u: "clear_drawn_path s color = Some s'"
  shows "paths_ok (cd_grid_w s') (cd_grid_h s') (cd_grid s') (cd_endpoints s') (cd_bridges s')
           (cd_drawn_paths s')"
proof -
  note D = paths_okD [OF ok]
  from u obtain g' e1 e2 where e: "map_of (cd_endpoints s) color = Some (e1, e2)"
    and f: "foldM (clear_cell s color e1 e2) (path_of s color) (cd_grid s) = Some g'"
    and s': "s' = s\<lparr>cd_grid := g', cd_drawn_paths := dict_set (cd_drawn_paths s) color []\<rparr>"
    by (rule clear_drawn_path_effect)
  have ep: "(color, e1, e2) \<in> set (cd_endpoints s)" using e by (rule map_of_SomeD)
  have col: "color \<noteq> 0" using D(3) [OF ep] by simp
  have path: "path_of s color = [] \<or> (color, path_of s color) \<in> set (cd_drawn_paths s)"
    by (auto simp: path_of_def split: option.splits dest: map_of_SomeD)
  have onb: "on_board (cd_grid_w s) (cd_grid_h s) x" if "x \<in> set (path_of s color)" for x
    using path that D(5) [of color "path_of s color" x] by auto
  have rel: "released (cd_grid_w s) (cd_grid_h s) (cd_drawn_paths s) color
               (set (path_of s color) - {e1, e2}) (cd_grid s) g'"
    using f released_refl refl col onb subset_refl by (rule clear_fold_released)
  have "paths_ok (cd_grid_w s) (cd_grid_h s) g' (cd_endpoints s) (cd_bridges s)
            (dict_set (cd_drawn_paths s) color [])"
    using ok ep path rel by (rule paths_ok_release) simp_all
  thus ?thesis by (simp add: s')
qed

lemma paths_ok_append:
  assumes ok: "paths_ok w h g eps br ps"
    and p: "map_of ps color = Some path"
    and t: "target \<notin> set path" "on_board w h target"
    and hdc: "path = [] \<Longrightarrow> \<exists>e1 e2. (color, e1, e2) \<in> set eps \<and> (target = e1 \<or> target = e2)"
    and grid: "(g' = g \<and> cell g target \<noteq> Some 0 \<and> (target \<in> br \<or> cell g target = Some color))
               \<or> (cell g target = Some 0 \<and> grid_set g (snd target) (fst target) color = Some g')"
  shows "paths_ok w h g' eps br (dict_set ps color (path @ [target]))"
proof (rule paths_ok_replace [OF ok])
  note D = paths_okD [OF ok]
  from p have inps: "(color, path) \<in> set ps" by (rule map_of_SomeD)
  show col: "0 < color" using D(4) [OF inps] by simp
  show "distinct (path @ [target])" using D(4) [OF inps] t(1) by simp
  show "\<exists>e1 e2. (color, e1, e2) \<in> set eps \<and> (hd (path @ [target]) = e1 \<or> hd (path @ [target]) = e2)"
    using hdc D(4) [OF inps] by (cases path) auto
  have tn: "0 \<le> fst target" "0 \<le> snd target" using t(2) by (simp_all add: on_board_def)
  have neq: "g' \<noteq> g" if z: "cell g target = Some 0"
  proof
    assume "g' = g"
    with grid z have "grid_set g (snd target) (fst target) color = Some g" by auto
    from cell_grid_set [OF this tn tn] z col show False by auto
  qed
  have frame: "cell g' x = (if x = target then (if g' = g then cell g target else Some color)
                            else cell g x)" if "on_board w h x" for x
  proof (cases "g' = g")
    case True
    then show ?thesis by simp
  next
    case False
    with grid have z: "cell g target = Some 0"
      and set: "grid_set g (snd target) (fst target) color = Some g'" by auto
    have xn: "0 \<le> fst x" "0 \<le> snd x" using that by (simp_all add: on_board_def)
    have "cell g' x = (if x = (fst target, snd target) then Some color else cell g x)"
      using set tn xn by (rule cell_grid_set)
    with False show ?thesis by auto
  qed
  have tcell: "cell g' target \<noteq> Some 0 \<and> (target \<in> br \<or> cell g' target = Some color)"
  proof (cases "g' = g")
    case True
    with neq grid show ?thesis by auto
  next
    case False
    with frame [OF t(2)] col show ?thesis by auto
  qed
  show "on_board w h x \<and> cell g' x \<noteq> Some 0 \<and> (x \<in> br \<or> cell g' x = Some color)"
    if "x \<in> set (path @ [target])" for x
  proof (cases "x = target")
    case True
    with tcell t(2) show ?thesis by simp
  next
    case False
    with that have xp: "x \<in> set path" by simp
    from D(5) [OF inps xp] frame [of x] False show ?thesis by simp
  qed
  show "cell g' x \<noteq> Some 0 \<and> (x \<in> br \<or> cell g' x = Some c)"
    if "(c, q) \<in> set ps" "c \<noteq> color" "x \<in> set q" for c q x
  proof -
    from D(5) [OF that(1,3)] have o: "on_board w h x" "cell g x \<noteq> Some 0"
      "x \<in> br \<or> cell g x = Some c" by simp_all
    show ?thesis
    proof (cases "x = target")
      case True
      with o grid have "g' = g" by auto
      with o show ?thesis by simp
    next
      case False
      with frame [OF o(1)] o show ?thesis by simp
    qed
  qed
  show "cell g' a = Some c \<and> cell g' b = Some c" if "(c, a, b) \<in> set eps" for c a b
  proof -
    from D(3) [OF that] have o: "0 < c" "on_board w h a" "on_board w h b"
      "cell g a = Some c" "cell g b = Some c" by simp_all
    have "cell g' x = Some c" if x: "x = a \<or> x = b" for x
    proof (cases "x = target")
      case True
      with x o grid have "g' = g" by auto
      with x o show ?thesis by auto
    next
      case False
      with frame [of x] x o show ?thesis by auto
    qed
    thus ?thesis by simp
  qed
qed

lemma last_butlast_nth: "2 \<le> length xs \<Longrightarrow> last (butlast xs) = xs ! (length xs - 2)"
proof -
  assume l: "2 \<le> length xs"
  hence "butlast xs \<noteq> []" by (cases xs) auto
  hence "last (butlast xs) = butlast xs ! (length (butlast xs) - 1)" by (rule last_conv_nth)
  also have "\<dots> = xs ! (length xs - 2)" using l by (simp add: nth_butlast numeral_2_eq_2)
  finally show ?thesis .
qed

text \<open>The invariant is kept by every operation of the game.\<close>

lemma cd_invI:
  assumes "paths_ok (cd_grid_w s) (cd_grid_h s) (cd_grid s) (cd_endpoints s) (cd_bridges s)
             (cd_drawn_paths s)"
    and "\<And>p. 0 < cd_selected_color s \<Longrightarrow> map_of (cd_drawn_paths s) (cd_selected_color s) = Some p
           \<Longrightarrow> p \<noteq> [] \<Longrightarrow> (cd_cursor_x s, cd_cursor_y s) = last p"
  shows "cd_inv s"
  using assms by (auto simp: cd_inv_def split: option.splits)

lemma cd_invD:
  assumes "cd_inv s"
  shows "paths_ok (cd_grid_w s) (cd_grid_h s) (cd_grid s) (cd_endpoints s) (cd_bridges s)
             (cd_drawn_paths s)"
    and "\<And>p. 0 < cd_selected_color s \<Longrightarrow> map_of (cd_drawn_paths s) (cd_selected_color s) = Some p
           \<Longrightarrow> p \<noteq> [] \<Longrightarrow> (cd_cursor_x s, cd_cursor_y s) = last p"
  using assms by (auto simp: cd_inv_def split: option.splits)

lemma extend_path_inv:
  assumes inv: "cd_inv s" and e: "extend_path s dx dy = Some s'"
  shows "cd_inv s'"
  using e
proof (cases rule: extend_path_cases)
  case noop
  with inv show ?thesis by simp
next
  case (backstep path s1)
  note ok = cd_invD(1) [OF inv]
  from ok backstep(4) have ok1: "paths_ok (cd_grid_w s1) (cd_grid_h s1) (cd_grid s1)
      (cd_endpoints s1) (cd_bridges s1) (cd_drawn_paths s1)" by (rule undo_last_cell_ok)
  from ok backstep(4) have s1: "cd_selected_color s1 = cd_selected_color s
      \<and> map_of (cd_drawn_paths s1) (cd_selected_color s) = Some (butlast path)"
  proof (cases rule: undo_last_cell_cases)
    case none
    with backstep(1,2) show ?thesis by simp
  next
    case (cut path' g' e1 e2)
    with backstep(1) show ?thesis by (simp add: map_of_dict_set)
  qed
  show ?thesis
  proof (rule cd_invI)
    show "paths_ok (cd_grid_w s') (cd_grid_h s') (cd_grid s') (cd_endpoints s') (cd_bridges s')
            (cd_drawn_paths s')" using ok1 by (simp add: backstep(5))
    fix p assume "map_of (cd_drawn_paths s') (cd_selected_color s') = Some p"
    with s1 have "p = butlast path" by (simp add: backstep(5))
    with backstep(2,3) show "(cd_cursor_x s', cd_cursor_y s') = last p"
      by (simp add: backstep(5) last_butlast_nth)
  qed
next
  case (finish path e1 e2)
  note ok = cd_invD(1) [OF inv]
  note D = paths_okD [OF ok]
  let ?t = "(cd_cursor_x s + dx, cd_cursor_y s + dy)"
  from finish(5) have ep: "(cd_selected_color s, e1, e2) \<in> set (cd_endpoints s)"
    by (rule map_of_SomeD)
  from D(3) [OF ep] finish(6) have c: "0 < cd_selected_color s"
    "cell (cd_grid s) ?t = Some (cd_selected_color s)" by (auto split: if_splits)
  have "paths_ok (cd_grid_w s) (cd_grid_h s) (cd_grid s) (cd_endpoints s) (cd_bridges s)
          (dict_set (cd_drawn_paths s) (cd_selected_color s) (path @ [?t]))"
    using ok finish(1,3,4) by (rule paths_ok_append) (use finish(2) c in auto)
  thus ?thesis by (simp add: cd_inv_def finish(7))
next
  case (fill path e1 e2 g)
  note ok = cd_invD(1) [OF inv]
  let ?t = "(cd_cursor_x s + dx, cd_cursor_y s + dy)"
  have "paths_ok (cd_grid_w s) (cd_grid_h s) g (cd_endpoints s) (cd_bridges s)
          (dict_set (cd_drawn_paths s) (cd_selected_color s) (path @ [?t]))"
    using ok fill(1,3,4) by (rule paths_ok_append) (use fill(2,6,7) in auto)
  thus ?thesis by (simp add: cd_inv_def fill(8) map_of_dict_set)
next
  case (bridge path e1 e2 c)
  note ok = cd_invD(1) [OF inv]
  let ?t = "(cd_cursor_x s + dx, cd_cursor_y s + dy)"
  have "paths_ok (cd_grid_w s) (cd_grid_h s) (cd_grid s) (cd_endpoints s) (cd_bridges s)
          (dict_set (cd_drawn_paths s) (cd_selected_color s) (path @ [?t]))"
    using ok bridge(1,3,4) by (rule paths_ok_append) (use bridge(2,6,7,9) in auto)
  thus ?thesis by (simp add: cd_inv_def bridge(10) map_of_dict_set)
qed

lemma clear_drawn_path_inv:
  assumes inv: "cd_inv s" and c: "clear_drawn_path s color = Some s'"
  shows "cd_inv s'"
proof -
  from c obtain g' e1 e2 where
    s': "s' = s\<lparr>cd_grid := g', cd_drawn_paths := dict_set (cd_drawn_paths s) color []\<rparr>"
    by (rule clear_drawn_path_effect)
  show ?thesis
  proof (rule cd_invI)
    show "paths_ok (cd_grid_w s') (cd_grid_h s') (cd_grid s') (cd_endpoints s') (cd_bridges s')
            (cd_drawn_paths s')" using cd_invD(1) [OF inv] c by (rule clear_drawn_path_ok)
    fix p assume "0 < cd_selected_color s'"
      "map_of (cd_drawn_paths s') (cd_selected_color s') = Some p" "p \<noteq> []"
    with cd_invD(2) [OF inv, of p] show "(cd_cursor_x s', cd_cursor_y s') = last p"
      by (auto simp: s' map_of_dict_set split: if_splits)
  qed
qed

lemma handle_undo_inv:
  assumes inv: "cd_inv s" and u: "handle_undo s = Some s'"
  shows "cd_inv s'"
proof (cases "cd_selected_color s \<le> 0 \<or> length (path_of s (cd_selected_color s)) \<le> 1")
  case True
  with u have "s' = s" by (auto simp: handle_undo_def split: if_splits)
  with inv show ?thesis by simp
next
  case False
  with u obtain s1 where s1: "undo_last_cell s (cd_selected_color s) = Some s1"
    and s': "s' = (let path = path_of s1 (cd_selected_color s1) in
               if path \<noteq> [] then s1\<lparr>cd_cursor_x := fst (last path), cd_cursor_y := snd (last path)\<rparr>
               else s1)"
    by (auto simp: handle_undo_def Let_def split: option.splits if_splits)
  from cd_invD(1) [OF inv] s1 have ok1: "paths_ok (cd_grid_w s1) (cd_grid_h s1) (cd_grid s1)
      (cd_endpoints s1) (cd_bridges s1) (cd_drawn_paths s1)" by (rule undo_last_cell_ok)
  show ?thesis
  proof (rule cd_invI)
    show "paths_ok (cd_grid_w s') (cd_grid_h s') (cd_grid s') (cd_endpoints s') (cd_bridges s')
            (cd_drawn_paths s')" using ok1 by (simp add: s' Let_def)
    fix p assume "map_of (cd_drawn_paths s') (cd_selected_color s') = Some p" "p \<noteq> []"
    thus "(cd_cursor_x s', cd_cursor_y s') = last p"
      by (auto simp: s' Let_def path_of_def split: if_splits)
  qed
qed

lemma handle_select_inv:
  assumes inv: "cd_inv s" and h: "handle_select s = Some s'"
  shows "cd_inv s'"
proof (cases "cd_selected_color s > 0")
  case True
  with h have "s' = s\<lparr>cd_selected_color := 0\<rparr>" by (simp add: handle_select_def)
  with inv show ?thesis by (auto simp: cd_inv_def split: option.splits)
next
  case False
  let ?pos = "(cd_cursor_x s, cd_cursor_y s)"
  show ?thesis
  proof (cases "find (\<lambda>(cid, ep1, ep2). ?pos = ep1 \<or> ?pos = ep2) (cd_endpoints s)")
    case None
    with h False have "s' = s" by (simp add: handle_select_def)
    with inv show ?thesis by simp
  next
    case (Some e)
    obtain cid ep1 ep2 where e: "e = (cid, ep1, ep2)" by (cases e)
    from Some e have ep: "(cid, ep1, ep2) \<in> set (cd_endpoints s)" and pos: "?pos = ep1 \<or> ?pos = ep2"
      by (auto simp: find_Some_iff in_set_conv_nth)
    from h False Some e obtain s1 where c: "clear_drawn_path s cid = Some s1"
      and s': "s' = s1\<lparr>cd_selected_color := cid,
                       cd_drawn_paths := dict_set (cd_drawn_paths s1) cid [?pos]\<rparr>"
      by (auto simp: handle_select_def split: option.splits)
    from c obtain g' e1 e2 where
      s1: "s1 = s\<lparr>cd_grid := g', cd_drawn_paths := dict_set (cd_drawn_paths s) cid []\<rparr>"
      by (rule clear_drawn_path_effect)
    from cd_invD(1) [OF inv] c have ok1: "paths_ok (cd_grid_w s1) (cd_grid_h s1) (cd_grid s1)
      (cd_endpoints s1) (cd_bridges s1) (cd_drawn_paths s1)" by (rule clear_drawn_path_ok)
    note D = paths_okD [OF ok1]
    have ep1: "(cid, ep1, ep2) \<in> set (cd_endpoints s1)" using ep by (simp add: s1)
    have "paths_ok (cd_grid_w s1) (cd_grid_h s1) (cd_grid s1) (cd_endpoints s1) (cd_bridges s1)
            (dict_set (cd_drawn_paths s1) cid [?pos])"
    proof (rule paths_ok_replace [OF ok1])
      show "0 < cid" using D(3) [OF ep1] by simp
      show "distinct [?pos]" by simp
      show "\<exists>e1 e2. (cid, e1, e2) \<in> set (cd_endpoints s1) \<and> (hd [?pos] = e1 \<or> hd [?pos] = e2)"
        using ep1 pos by (intro exI [of _ ep1] exI [of _ ep2]) auto
      show "on_board (cd_grid_w s1) (cd_grid_h s1) x \<and> cell (cd_grid s1) x \<noteq> Some 0
              \<and> (x \<in> cd_bridges s1 \<or> cell (cd_grid s1) x = Some cid)" if "x \<in> set [?pos]" for x
        using that pos D(3) [OF ep1] by auto
      show "cell (cd_grid s1) x \<noteq> Some 0 \<and> (x \<in> cd_bridges s1 \<or> cell (cd_grid s1) x = Some c)"
        if "(c, p) \<in> set (cd_drawn_paths s1)" "x \<in> set p" for c p x
        using D(5) [OF that] by simp
      show "cell (cd_grid s1) a = Some c \<and> cell (cd_grid s1) b = Some c"
        if "(c, a, b) \<in> set (cd_endpoints s1)" for c a b
        using D(3) [OF that] by simp
    qed
    thus ?thesis by (simp add: cd_inv_def s' s1 map_of_dict_set)
  qed
qed

lemma move_cursor_inv:
  assumes "cd_inv s" and "\<not> 0 < cd_selected_color s"
  shows "cd_inv (move_cursor s dx dy)"
  using assms by (auto simp: cd_inv_def move_cursor_def Let_def split: option.splits)

lemma cd_dispatch_inv:
  assumes inv: "cd_inv s" and d: "cd_dispatch s a = Some s'"
  shows "cd_inv s'"
proof (cases "cd_dir a")
  case None
  with d have "handle_select s = Some s' \<or> handle_undo s = Some s' \<or> s' = s"
    by (auto simp: cd_dispatch_def split: if_splits)
  with inv show ?thesis by (auto intro: handle_select_inv handle_undo_inv)
next
  case (Some d')
  obtain dx dy where "d' = (dx, dy)" by (cases d')
  with d Some have "extend_path s dx dy = Some s'
      \<or> (\<not> 0 < cd_selected_color s \<and> s' = move_cursor s dx dy)"
    by (auto simp: cd_dispatch_def split: if_splits)
  with inv show ?thesis by (auto intro: extend_path_inv move_cursor_inv)
qed

lemma cd_step_inv:
  assumes inv: "cd_inv s" and st: "cd_step s a = Some (s', won)"
  shows "cd_inv s'"
proof -
  from inv have i0: "cd_inv (s\<lparr>cd_step_count := cd_step_count s + 1\<rparr>)"
    by (auto simp: cd_inv_def split: option.splits)
  from st obtain s1 where d: "cd_dispatch (s\<lparr>cd_step_count := cd_step_count s + 1\<rparr>) a = Some s1"
    and s': "s' = s1 \<or> s' = s1\<lparr>cd_game_over := True\<rparr>"
    by (auto simp: cd_step_def split: option.splits if_splits)
  from i0 d have "cd_inv s1" by (rule cd_dispatch_inv)
  with s' show ?thesis by (auto simp: cd_inv_def split: option.splits)
qed

text \<open>Each of the six levels starts in a state that has it.\<close>

lemma on_set_level_0: "case on_set_level 0 of None \<Rightarrow> False | Some s \<Rightarrow> cd_inv s" by code_simp
lemma on_set_level_1: "case on_set_level 1 of None \<Rightarrow> False | Some s \<Rightarrow> cd_inv s" by code_simp
lemma on_set_level_2: "case on_set_level 2 of None \<Rightarrow> False | Some s \<Rightarrow> cd_inv s" by code_simp
lemma on_set_level_3: "case on_set_level 3 of None \<Rightarrow> False | Some s \<Rightarrow> cd_inv s" by code_simp
lemma on_set_level_4: "case on_set_level 4 of None \<Rightarrow> False | Some s \<Rightarrow> cd_inv s" by code_simp
lemma on_set_level_5: "case on_set_level 5 of None \<Rightarrow> False | Some s \<Rightarrow> cd_inv s" by code_simp

lemma on_set_level_inv:
  assumes "on_set_level i = Some s"
  shows "cd_inv s"
proof -
  from assms have "i < 6" by (auto simp: on_set_level_def LEVEL_CONFIGS_def split: if_splits)
  hence "i = 0 \<or> i = 1 \<or> i = 2 \<or> i = 3 \<or> i = 4 \<or> i = 5" by arith
  with assms on_set_level_0 on_set_level_1 on_set_level_2 on_set_level_3 on_set_level_4
    on_set_level_5
  show ?thesis by auto
qed

lemma cd_apply_inv:
  assumes "cd_inv s" and "cd_apply s op = Some s'"
  shows "cd_inv s'"
  using assms
  by (cases op)
     (auto intro: handle_select_inv extend_path_inv handle_undo_inv clear_drawn_path_inv cd_step_inv)

lemma foldM_invariant:
  assumes "\<And>s x s'. P s \<Longrightarrow> f s x = Some s' \<Longrightarrow> P s'"
  shows "P s \<Longrightarrow> foldM f xs s = Some s' \<Longrightarrow> P s'"
  by (induction xs arbitrary: s) (auto split: option.splits intro: assms)

lemma cd_run_inv:
  assumes "cd_inv s" and "cd_run s ops = Some s'"
  shows "cd_inv s'"
  using cd_apply_inv assms unfolding cd_run_def by (rule foldM_invariant)
section \<open>cd01: undoing the cells just drawn\<close>




lemma path_of_dict_set:
  "path_of (s\<lparr>cd_drawn_paths := dict_set (cd_drawn_paths s) color p\<rparr>) c
     = (if c = color then p else path_of s c)"
  by (simp add: path_of_def map_of_dict_set)







section \<open>cd01: the drawn paths\<close>

text \<open>
  C5. In every state reached from the entry of a level by select, extend, undo and clear
  operations and steps of the game, no cell occurs twice in the drawn path of a colour, and a
  cell that lies on the drawn paths of two different colours is a bridge cell. The colours
  stored in \<open>drawn_paths\<close> are distinct, so that \<open>path_of\<close> reads every stored path.
\<close>

theorem drawn_paths_invariant:
  assumes "on_set_level i = Some s0" and "cd_run s0 ops = Some s"
  shows "distinct (map fst (cd_drawn_paths s))
    \<and> (\<forall>c. distinct (path_of s c))
    \<and> (\<forall>c c'. c \<noteq> c' \<longrightarrow> set (path_of s c) \<inter> set (path_of s c') \<subseteq> cd_bridges s)"
proof -
  from assms(1) have "cd_inv s0" by (rule on_set_level_inv)
  hence "cd_inv s" using assms(2) by (rule cd_run_inv)
  note D = paths_okD [OF cd_invD(1) [OF this]]
  have mem: "path_of s c = [] \<or> (c, path_of s c) \<in> set (cd_drawn_paths s)" for c
    by (auto simp: path_of_def split: option.splits dest: map_of_SomeD)
  have "distinct (path_of s c)" for c
    using mem [of c] D(4) [of c "path_of s c"] by auto
  moreover have "x \<in> cd_bridges s"
    if "c \<noteq> c'" "x \<in> set (path_of s c)" "x \<in> set (path_of s c')" for c c' x
  proof -
    from that mem [of c] mem [of c'] have "(c, path_of s c) \<in> set (cd_drawn_paths s)"
      "(c', path_of s c') \<in> set (cd_drawn_paths s)" by auto
    from D(5) [OF this(1) that(2)] D(5) [OF this(2) that(3)] that(1) show ?thesis by auto
  qed
  ultimately show ?thesis using D(1) by auto
qed

text \<open>On the third level the paths of colours 4 and 3 are drawn across the bridge at
  \<open>(3, 3)\<close>, which then lies on both.\<close>

theorem drawn_paths_invariant_witness:
  "(case on_set_level 2 of None \<Rightarrow> False
    | Some s0 \<Rightarrow>
       (case cd_run s0 bridge_moves of None \<Rightarrow> False
        | Some s \<Rightarrow> path_of s 4 = [(2, 3), (3, 3)] \<and> path_of s 3 = [(3, 2), (3, 3)]
            \<and> distinct (map fst (cd_drawn_paths s))
            \<and> (\<forall>c. distinct (path_of s c))
            \<and> (\<forall>c c'. c \<noteq> c' \<longrightarrow> set (path_of s c) \<inter> set (path_of s c') \<subseteq> cd_bridges s)))"
proof -
  have "case on_set_level 2 of None \<Rightarrow> False
    | Some s0 \<Rightarrow>
       (case cd_run s0 bridge_moves of None \<Rightarrow> False
        | Some s \<Rightarrow> path_of s 4 = [(2, 3), (3, 3)] \<and> path_of s 3 = [(3, 2), (3, 3)])"
    by code_simp
  then obtain s0 s where "on_set_level 2 = Some s0" "cd_run s0 bridge_moves = Some s"
    "path_of s 4 = [(2, 3), (3, 3)]" "path_of s 3 = [(3, 2), (3, 3)]"
    by (auto split: option.splits)
  with drawn_paths_invariant [of 2 s0 bridge_moves s] show ?thesis by simp
qed
section \<open>cd01: undo after extend\<close>



end
